theory Spec2Isabelle
  imports Main "HOL-Library.Word" "HOL-Library.AList" "HOL-Library.List_Lexorder"
begin

unbundle bit_operations_syntax

section \<open>Common definitions (common.h)\<close>

type_synonym value_t = "64 word"
type_synonym byte = "8 word"
type_synonym addr = nat

text \<open>The tunables of common.h. Each one is guarded by \<^verbatim>\<open>#ifndef\<close>, so a build may
  override it; the burst threshold is therefore a parameter \<open>bsz\<close> of the insertion
  functions below, and \<open>TRIE_BUCKET_SIZE\<close> is its default.\<close>

definition TRIE_BUCKET_SIZE :: nat where
  "TRIE_BUCKET_SIZE = 16384"

definition TRIE_MAXCHAR :: nat where
  "TRIE_MAXCHAR = 0xff"

definition NODE_CHILDS :: nat where
  "NODE_CHILDS = TRIE_MAXCHAR + 1"

definition NODE_TYPE_TRIE :: "8 word" where
  "NODE_TYPE_TRIE = 0x1"

definition NODE_TYPE_PURE_BUCKET :: "8 word" where
  "NODE_TYPE_PURE_BUCKET = 0x2"

definition NODE_TYPE_HYBRID_BUCKET :: "8 word" where
  "NODE_TYPE_HYBRID_BUCKET = 0x4"

definition NODE_HAS_VAL :: "8 word" where
  "NODE_HAS_VAL = 0x8"

text \<open>Everything that aborts the C program or leaves defined behaviour is a value:
  a failed \<^verbatim>\<open>assert\<close>, a read of the key buffer past its end, and a dereference of a
  pointer that does not hold a node of the expected variant.\<close>

datatype error = AssertionFailed | OutOfBounds | InvalidPointer

section \<open>The array hash table\<close>

text \<open>The bucket record. The fields \<open>flag\<close>, \<open>c0\<close>, \<open>c1\<close> are the ones hat-trie.c
  reads and writes (\<^verbatim>\<open>node.b->flag\<close>, \<^verbatim>\<open>node.b->c0\<close>, \<^verbatim>\<open>node.b->c1\<close>); the stored
  records are an association list with distinct keys, in the table's enumeration order,
  and \<^verbatim>\<open>node.b->m\<close> is its length.\<close>

record ahtable_t =
  b_flag :: "8 word"
  b_c0 :: nat
  b_c1 :: nat
  b_slots :: "(byte list \<times> value_t) list"

text \<open>Modelled from the spec: ahtable.c is not among the sources. Section 4.2 gives the
  contract: \<open>create\<close> makes an empty table, \<open>get\<close> returns the value slot of a key and
  inserts a zero-initialised entry if the key is absent, \<open>tryget\<close> does not insert,
  \<open>insert\<close> is an upsert, \<open>del\<close> removes a key and answers 0, or -1 when it is absent,
  \<open>size\<close> is the number of live records. A pointer to a value slot is the key of the
  record.\<close>

definition ahtable_create :: ahtable_t where
  "ahtable_create = \<lparr>b_flag = 0, b_c0 = 0, b_c1 = 0, b_slots = []\<rparr>"

definition ahtable_size :: "ahtable_t \<Rightarrow> nat" where
  "ahtable_size b = length (b_slots b)"

definition ahtable_tryget :: "ahtable_t \<Rightarrow> byte list \<Rightarrow> value_t option" where
  "ahtable_tryget b key = map_of (b_slots b) key"

definition ahtable_get :: "ahtable_t \<Rightarrow> byte list \<Rightarrow> ahtable_t" where
  "ahtable_get b key =
     (case map_of (b_slots b) key of
        Some v \<Rightarrow> b
      | None \<Rightarrow> b\<lparr>b_slots := b_slots b @ [(key, 0)]\<rparr>)"

definition ahtable_insert :: "ahtable_t \<Rightarrow> byte list \<Rightarrow> value_t \<Rightarrow> ahtable_t" where
  "ahtable_insert b key v = b\<lparr>b_slots := AList.update key v (b_slots b)\<rparr>"

definition ahtable_del :: "ahtable_t \<Rightarrow> byte list \<Rightarrow> int \<times> ahtable_t" where
  "ahtable_del b key =
     (case map_of (b_slots b) key of
        Some v \<Rightarrow> (0, b\<lparr>b_slots := AList.delete key (b_slots b)\<rparr>)
      | None \<Rightarrow> (-1, b))"

section \<open>Nodes, the store and the container (hat-trie.c)\<close>

text \<open>\<^verbatim>\<open>trie_node_t\<close>: the flag byte, the value of the key consumed on this node and the
  array \<^verbatim>\<open>xs[NODE_CHILDS]\<close> of child pointers, indexed by a byte.\<close>

record trie_node_t =
  t_flag :: "8 word"
  t_val :: value_t
  t_xs :: "nat \<Rightarrow> addr"

text \<open>The union \<^verbatim>\<open>node_ptr\<close> points either to a trie node or to a bucket. The store maps
  an address to what was allocated there.\<close>

datatype node = TrieNode trie_node_t | BucketNode ahtable_t

type_synonym heap = "addr \<Rightarrow> node option"

fun node_flag :: "node \<Rightarrow> 8 word" where
  "node_flag (TrieNode t) = t_flag t"
| "node_flag (BucketNode b) = b_flag b"

text \<open>\<^verbatim>\<open>struct hattrie_t_\<close>: root pointer and key count \<^verbatim>\<open>m\<close>. The store and the next
  unused address stand for the memory behind the slab cache and \<^verbatim>\<open>malloc\<close>.\<close>

record hattrie_t =
  hat_root :: addr
  hat_m :: "64 word"
  hat_mem :: heap
  hat_next :: addr

text \<open>A pointer to a value, as returned by \<^verbatim>\<open>hattrie_get\<close> and \<^verbatim>\<open>hattrie_tryget\<close>:
  the \<^verbatim>\<open>val\<close> field of a trie node, or the value slot of a key in a bucket.\<close>

datatype val_ptr = TrieVal addr | SlotVal addr "byte list"

definition load_val :: "heap \<Rightarrow> val_ptr \<Rightarrow> value_t option" where
  "load_val h p =
     (case p of
        TrieVal a \<Rightarrow> (case h a of Some (TrieNode t) \<Rightarrow> Some (t_val t) | _ \<Rightarrow> None)
      | SlotVal a key \<Rightarrow>
          (case h a of Some (BucketNode b) \<Rightarrow> ahtable_tryget b key | _ \<Rightarrow> None))"

definition store_val :: "heap \<Rightarrow> val_ptr \<Rightarrow> value_t \<Rightarrow> heap" where
  "store_val h p v =
     (case p of
        TrieVal a \<Rightarrow>
          (case h a of Some (TrieNode t) \<Rightarrow> h(a \<mapsto> TrieNode (t\<lparr>t_val := v\<rparr>)) | _ \<Rightarrow> h)
      | SlotVal a key \<Rightarrow>
          (case h a of
             Some (BucketNode b) \<Rightarrow>
               (case map_of (b_slots b) key of
                  Some u \<Rightarrow> h(a \<mapsto> BucketNode (ahtable_insert b key v))
                | None \<Rightarrow> h)
           | _ \<Rightarrow> h))"

definition alloc_node :: "hattrie_t \<Rightarrow> node \<Rightarrow> addr \<times> hattrie_t" where
  "alloc_node T n =
     (hat_next T, T\<lparr>hat_mem := (hat_mem T)(hat_next T \<mapsto> n), hat_next := Suc (hat_next T)\<rparr>)"

definition alloc_trie_node :: "hattrie_t \<Rightarrow> addr \<Rightarrow> addr \<times> hattrie_t" where
  "alloc_trie_node T child =
     alloc_node T (TrieNode \<lparr>t_flag = NODE_TYPE_TRIE, t_val = 0, t_xs = (\<lambda>i. child)\<rparr>)"

text \<open>The key argument is a buffer and a length; \<open>k\<close> is the offset the C pointer has
  been advanced by. Reading \<^verbatim>\<open>**k\<close> beyond the buffer is an error.\<close>

definition key_at :: "byte list \<Rightarrow> nat \<Rightarrow> error + byte" where
  "key_at key k = (if k < length key then Inr (key ! k) else Inl OutOfBounds)"

definition key_bytes :: "byte list \<Rightarrow> nat \<Rightarrow> nat \<Rightarrow> error + byte list" where
  "key_bytes key k l =
     (if k + l \<le> length key then Inr (take l (drop k key)) else Inl OutOfBounds)"

text \<open>The loop of \<^verbatim>\<open>hattrie_consume\<close>; the state is \<^verbatim>\<open>(*p, *k, *l, node)\<close>.\<close>

function consume_loop ::
  "heap \<Rightarrow> byte list \<Rightarrow> nat \<Rightarrow> addr \<times> nat \<times> nat \<times> addr \<Rightarrow> error + addr \<times> nat \<times> nat \<times> addr"
where
  "consume_loop h key brk (p, k, l, nd) =
     (case h nd of
        None \<Rightarrow> Inl InvalidPointer
      | Some n \<Rightarrow>
          if node_flag n AND NODE_TYPE_TRIE \<noteq> 0 \<and> l > brk then
            (case n of
               TrieNode t \<Rightarrow>
                 (case key_at key (k + 1) of
                    Inl e \<Rightarrow> Inl e
                  | Inr c \<Rightarrow> consume_loop h key brk (nd, k + 1, l - 1, t_xs t (unat c)))
             | BucketNode b \<Rightarrow> Inl InvalidPointer)
          else Inr (p, k, l, nd))"
  by pat_completeness auto
termination
  by (relation "measure (\<lambda>(h, key, brk, p, k, l, nd). l)") auto

declare consume_loop.simps [simp del]

definition hattrie_consume ::
  "heap \<Rightarrow> byte list \<Rightarrow> addr \<times> nat \<times> nat \<Rightarrow> nat \<Rightarrow> error + addr \<times> nat \<times> nat \<times> addr"
where
  "hattrie_consume h key pkl brk =
     (case pkl of (p, k, l) \<Rightarrow>
        (case h p of
           Some (TrieNode t) \<Rightarrow>
             (case key_at key k of
                Inl e \<Rightarrow> Inl e
              | Inr c \<Rightarrow>
                  (case consume_loop h key brk (p, k, l, t_xs t (unat c)) of
                     Inl e \<Rightarrow> Inl e
                   | Inr (p', k', l', nd) \<Rightarrow>
                       (case h p' of
                          Some n \<Rightarrow>
                            if node_flag n AND NODE_TYPE_TRIE \<noteq> 0 then Inr (p', k', l', nd)
                            else Inl AssertionFailed
                        | None \<Rightarrow> Inl InvalidPointer)))
         | _ \<Rightarrow> Inl InvalidPointer))"

definition hattrie_useval :: "hattrie_t \<Rightarrow> addr \<Rightarrow> error + val_ptr \<times> hattrie_t" where
  "hattrie_useval T n =
     (case hat_mem T n of
        Some (TrieNode t) \<Rightarrow>
          if t_flag t AND NODE_HAS_VAL = 0 then
            Inr (TrieVal n,
                 T\<lparr>hat_mem := (hat_mem T)(n \<mapsto> TrieNode (t\<lparr>t_flag := t_flag t OR NODE_HAS_VAL\<rparr>)),
                   hat_m := hat_m T + 1\<rparr>)
          else Inr (TrieVal n, T)
      | _ \<Rightarrow> Inl InvalidPointer)"

definition hattrie_clrval :: "hattrie_t \<Rightarrow> addr \<Rightarrow> error + int \<times> hattrie_t" where
  "hattrie_clrval T n =
     (case hat_mem T n of
        Some (TrieNode t) \<Rightarrow>
          if t_flag t AND NODE_HAS_VAL \<noteq> 0 then
            Inr (0,
                 T\<lparr>hat_mem := (hat_mem T)(n \<mapsto>
                      TrieNode (t\<lparr>t_flag := t_flag t AND NOT NODE_HAS_VAL, t_val := 0\<rparr>)),
                   hat_m := hat_m T - 1\<rparr>)
          else Inr (-1, T)
      | _ \<Rightarrow> Inl InvalidPointer)"

text \<open>\<^verbatim>\<open>hattrie_find\<close> answers the node (\<open>None\<close> for the null pointer) and the advanced key
  offset and length.\<close>

definition hattrie_find ::
  "hattrie_t \<Rightarrow> byte list \<Rightarrow> nat \<Rightarrow> error + addr option \<times> nat \<times> nat"
where
  "hattrie_find T key len =
     (case hat_mem T (hat_root T) of
        None \<Rightarrow> Inl InvalidPointer
      | Some r \<Rightarrow>
          if node_flag r AND NODE_TYPE_TRIE = 0 then Inl AssertionFailed
          else if len = 0 then Inr (Some (hat_root T), 0, len)
          else
            (case hattrie_consume (hat_mem T) key (hat_root T, 0, len) 1 of
               Inl e \<Rightarrow> Inl e
             | Inr (parent, k, l, nd) \<Rightarrow>
                 (case hat_mem T nd of
                    None \<Rightarrow> Inl InvalidPointer
                  | Some n \<Rightarrow>
                      if node_flag n AND NODE_TYPE_TRIE \<noteq> 0 then
                        (if node_flag n AND NODE_HAS_VAL = 0 then Inr (None, k, l)
                         else Inr (Some nd, k, l))
                      else if node_flag n AND NODE_TYPE_PURE_BUCKET \<noteq> 0 then
                        Inr (Some nd, k + 1, l - 1)
                      else Inr (Some nd, k, l))))"

definition hattrie_create :: hattrie_t where
  "hattrie_create =
     (let T = \<lparr>hat_root = 0, hat_m = 0, hat_mem = Map.empty, hat_next = 1\<rparr>;
          (b, T1) = alloc_node T (BucketNode (ahtable_create
                      \<lparr>b_flag := NODE_TYPE_HYBRID_BUCKET, b_c0 := 0x00, b_c1 := TRIE_MAXCHAR\<rparr>));
          (r, T2) = alloc_trie_node T1 b
      in T2\<lparr>hat_root := r\<rparr>)"

definition hattrie_tryget :: "hattrie_t \<Rightarrow> byte list \<Rightarrow> nat \<Rightarrow> error + val_ptr option" where
  "hattrie_tryget T key len =
     (case hattrie_find T key len of
        Inl e \<Rightarrow> Inl e
      | Inr (None, k, l) \<Rightarrow> Inr None
      | Inr (Some nd, k, l) \<Rightarrow>
          (case hat_mem T nd of
             None \<Rightarrow> Inl InvalidPointer
           | Some n \<Rightarrow>
               if node_flag n AND NODE_TYPE_TRIE \<noteq> 0 then
                 (case n of
                    TrieNode t \<Rightarrow> Inr (Some (TrieVal nd))
                  | BucketNode b \<Rightarrow> Inl InvalidPointer)
               else
                 (case n of
                    TrieNode t \<Rightarrow> Inl InvalidPointer
                  | BucketNode b \<Rightarrow>
                      (case key_bytes key k l of
                         Inl e \<Rightarrow> Inl e
                       | Inr kb \<Rightarrow>
                           (case ahtable_tryget b kb of
                              None \<Rightarrow> Inr None
                            | Some v \<Rightarrow> Inr (Some (SlotVal nd kb)))))))"

definition hattrie_del :: "hattrie_t \<Rightarrow> byte list \<Rightarrow> nat \<Rightarrow> error + int \<times> hattrie_t" where
  "hattrie_del T key len =
     (case hattrie_find T key len of
        Inl e \<Rightarrow> Inl e
      | Inr (None, k, l) \<Rightarrow> Inr (-1, T)
      | Inr (Some nd, k, l) \<Rightarrow>
          (case hat_mem T nd of
             None \<Rightarrow> Inl InvalidPointer
           | Some n \<Rightarrow>
               if node_flag n AND NODE_TYPE_TRIE \<noteq> 0 then hattrie_clrval T nd
               else
                 (case n of
                    TrieNode t \<Rightarrow> Inl InvalidPointer
                  | BucketNode b \<Rightarrow>
                      (case key_bytes key k l of
                         Inl e \<Rightarrow> Inl e
                       | Inr kb \<Rightarrow>
                           (case ahtable_del b kb of
                              (ret, b') \<Rightarrow>
                                Inr (ret,
                                     T\<lparr>hat_mem := (hat_mem T)(nd \<mapsto> BucketNode b'),
                                       hat_m := hat_m T -
                                         (of_nat (ahtable_size b) - of_nat (ahtable_size b'))\<rparr>))))))"

subsection \<open>Bursting\<close>

text \<open>\<^verbatim>\<open>hattrie_split_mid\<close>: the first loop counts the leading bytes of the bucket's keys
  into \<^verbatim>\<open>unsigned cs[NODE_CHILDS]\<close>, the second advances the split point \<open>j\<close>. The two
  \<^verbatim>\<open>abs\<close> arguments are \<^verbatim>\<open>int\<close>s: the first a difference of two casts, the second the
  unsigned difference converted to \<^verbatim>\<open>int\<close>.\<close>

fun split_mid_count ::
  "(byte list \<times> value_t) list \<Rightarrow> (nat \<Rightarrow> 32 word) \<Rightarrow> error + (nat \<Rightarrow> 32 word)"
where
  "split_mid_count [] cs = Inr cs"
| "split_mid_count ((key, u) # rest) cs =
     (case key of
        [] \<Rightarrow> Inl AssertionFailed
      | c # key' \<Rightarrow> split_mid_count rest (cs(unat c := cs (unat c) + 1)))"

function split_mid_loop ::
  "(nat \<Rightarrow> 32 word) \<Rightarrow> nat \<Rightarrow> 32 word \<Rightarrow> nat \<times> 32 word \<times> 32 word \<Rightarrow> nat \<times> 32 word \<times> 32 word"
where
  "split_mid_loop cs c1 all_m (j, left_m, right_m) =
     (if j + 1 < c1 then
        (let d = \<bar>sint (left_m + cs (j + 1)) - sint (right_m - cs (j + 1))\<bar>
         in if d \<le> \<bar>sint (left_m - right_m)\<bar> \<and> left_m + cs (j + 1) < all_m
            then split_mid_loop cs c1 all_m (j + 1, left_m + cs (j + 1), right_m - cs (j + 1))
            else (j, left_m, right_m))
      else (j, left_m, right_m))"
  by pat_completeness auto
termination
  by (relation "measure (\<lambda>(cs, c1, all_m, j, left_m, right_m). c1 - j)") auto

declare split_mid_loop.simps [simp del]

definition hattrie_split_mid :: "ahtable_t \<Rightarrow> error + nat \<times> 32 word \<times> 32 word" where
  "hattrie_split_mid b =
     (case split_mid_count (b_slots b) (\<lambda>c. 0) of
        Inl e \<Rightarrow> Inl e
      | Inr cs \<Rightarrow>
          (let j = b_c0 b;
               all_m = of_nat (ahtable_size b);
               left_m = cs j;
               right_m = all_m - left_m
           in Inr (split_mid_loop cs (b_c1 b) all_m (j, left_m, right_m))))"

text \<open>A write through a bucket pointer.\<close>

definition upd_bucket :: "heap \<Rightarrow> addr \<Rightarrow> (ahtable_t \<Rightarrow> ahtable_t) \<Rightarrow> error + heap" where
  "upd_bucket h a f =
     (case h a of
        Some (BucketNode b) \<Rightarrow> Inr (h(a \<mapsto> BucketNode (f b)))
      | _ \<Rightarrow> Inl InvalidPointer)"

text \<open>\<^verbatim>\<open>ahtable_insert(dst.b, key, len, *u)\<close> or, for a pure destination,
  \<^verbatim>\<open>ahtable_insert(dst.b, key + 1, len - 1, *u)\<close>.\<close>

definition split_fill_insert :: "heap \<Rightarrow> addr \<Rightarrow> byte list \<Rightarrow> value_t \<Rightarrow> error + heap" where
  "split_fill_insert h dst key u =
     upd_bucket h dst (\<lambda>b. if b_flag b AND NODE_TYPE_PURE_BUCKET \<noteq> 0
                            then ahtable_insert b (tl key) u
                            else ahtable_insert b key u)"

text \<open>\<^verbatim>\<open>hattrie_split_fill\<close> walks the records of \<open>src\<close>. The iterator was started on the
  source table before the loop, so the walk is over the records present then;
  \<^verbatim>\<open>ahtable_iter_del\<close> removes the current record without disturbing the walk
  (spec, section 4.2).\<close>

fun split_fill_loop ::
  "heap \<Rightarrow> addr \<Rightarrow> addr \<Rightarrow> addr \<Rightarrow> nat \<Rightarrow> (byte list \<times> value_t) list \<Rightarrow> error + heap"
where
  "split_fill_loop h src left right split [] = Inr h"
| "split_fill_loop h src left right split ((key, u) # rest) =
     (case key of
        [] \<Rightarrow> Inl AssertionFailed
      | c # key' \<Rightarrow>
          if unat c > split then
            (if src \<noteq> right then
               (case split_fill_insert h right key u of
                  Inl e \<Rightarrow> Inl e
                | Inr h1 \<Rightarrow>
                    if src = left then
                      (case upd_bucket h1 src (\<lambda>b. snd (ahtable_del b key)) of
                         Inl e \<Rightarrow> Inl e
                       | Inr h2 \<Rightarrow> split_fill_loop h2 src left right split rest)
                    else split_fill_loop h1 src left right split rest)
             else split_fill_loop h src left right split rest)
          else
            (if src \<noteq> left then
               (case split_fill_insert h left key u of
                  Inl e \<Rightarrow> Inl e
                | Inr h1 \<Rightarrow>
                    if src = right then
                      (case upd_bucket h1 src (\<lambda>b. snd (ahtable_del b key)) of
                         Inl e \<Rightarrow> Inl e
                       | Inr h2 \<Rightarrow> split_fill_loop h2 src left right split rest)
                    else split_fill_loop h1 src left right split rest)
             else split_fill_loop h src left right split rest))"

definition hattrie_split_fill :: "heap \<Rightarrow> addr \<Rightarrow> addr \<Rightarrow> addr \<Rightarrow> nat \<Rightarrow> error + heap" where
  "hattrie_split_fill h src left right split =
     (case h src of
        Some (BucketNode b) \<Rightarrow> split_fill_loop h src left right split (b_slots b)
      | _ \<Rightarrow> Inl InvalidPointer)"

text \<open>The two loops of \<^verbatim>\<open>hattrie_split_h\<close> that redirect the parent's slots.\<close>

definition set_children :: "(nat \<Rightarrow> addr) \<Rightarrow> nat \<Rightarrow> nat \<Rightarrow> nat \<Rightarrow> addr \<Rightarrow> addr \<Rightarrow> nat \<Rightarrow> addr" where
  "set_children ch c0 j c1 left right =
     fold (\<lambda>c f. f(c := right)) [Suc j..<Suc c1] (fold (\<lambda>c f. f(c := left)) [c0..<Suc j] ch)"

text \<open>\<^verbatim>\<open>hattrie_split_h\<close>, in the four steps its comments name. First: create the new
  left and right nodes; one of them may reuse the existing bucket if it stays hybrid.\<close>

definition split_h_nodes :: "hattrie_t \<Rightarrow> addr \<Rightarrow> nat \<Rightarrow> nat \<Rightarrow> nat \<Rightarrow> addr \<times> addr \<times> hattrie_t" where
  "split_h_nodes T nd c0 j c1 =
     (if j + 1 = c1 then
        (let (r, Ta) = alloc_node T (BucketNode ahtable_create)
         in if j = c0 then
              (let (l, Tb) = alloc_node Ta (BucketNode ahtable_create)
               in (l, r, Tb))
            else (nd, r, Ta))
      else
        (let (l, Ta) = alloc_node T (BucketNode ahtable_create)
         in (l, nd, Ta)))"

text \<open>Second: set up the created nodes.\<close>

definition split_h_setup :: "heap \<Rightarrow> addr \<Rightarrow> addr \<Rightarrow> nat \<Rightarrow> nat \<Rightarrow> nat \<Rightarrow> error + heap" where
  "split_h_setup h left right c0 j c1 =
     (case upd_bucket h left
             (\<lambda>b. b\<lparr>b_c0 := c0, b_c1 := j,
                    b_flag := (if c0 = j then NODE_TYPE_PURE_BUCKET
                               else NODE_TYPE_HYBRID_BUCKET)\<rparr>) of
        Inl e \<Rightarrow> Inl e
      | Inr h1 \<Rightarrow>
          upd_bucket h1 right
            (\<lambda>b. b\<lparr>b_c0 := j + 1, b_c1 := c1,
                   b_flag := (if j + 1 = c1 then NODE_TYPE_PURE_BUCKET
                              else NODE_TYPE_HYBRID_BUCKET)\<rparr>))"

text \<open>Third: update the parent's pointers.\<close>

definition split_h_reparent ::
  "heap \<Rightarrow> addr \<Rightarrow> nat \<Rightarrow> nat \<Rightarrow> nat \<Rightarrow> addr \<Rightarrow> addr \<Rightarrow> error + heap"
where
  "split_h_reparent h parent c0 j c1 left right =
     (case h parent of
        Some (TrieNode t) \<Rightarrow>
          Inr (h(parent \<mapsto> TrieNode (t\<lparr>t_xs := set_children (t_xs t) c0 j c1 left right\<rparr>)))
      | _ \<Rightarrow> Inl InvalidPointer)"

text \<open>Fourth: fill the new tables, and free the old one when neither side reuses it.\<close>

definition hattrie_split_h :: "hattrie_t \<Rightarrow> addr \<Rightarrow> addr \<Rightarrow> error + hattrie_t" where
  "hattrie_split_h T parent nd =
     (case hat_mem T nd of
        Some (BucketNode b) \<Rightarrow>
          (case hattrie_split_mid b of
             Inl e \<Rightarrow> Inl e
           | Inr (j, left_m, right_m) \<Rightarrow>
               (case split_h_nodes T nd (b_c0 b) j (b_c1 b) of
                  (left, right, T1) \<Rightarrow>
                    (case split_h_setup (hat_mem T1) left right (b_c0 b) j (b_c1 b) of
                       Inl e \<Rightarrow> Inl e
                     | Inr h2 \<Rightarrow>
                         (case split_h_reparent h2 parent (b_c0 b) j (b_c1 b) left right of
                            Inl e \<Rightarrow> Inl e
                          | Inr h3 \<Rightarrow>
                              (case hattrie_split_fill h3 nd left right j of
                                 Inl e \<Rightarrow> Inl e
                               | Inr h4 \<Rightarrow>
                                   Inr (T1\<lparr>hat_mem :=
                                          (if nd \<noteq> left \<and> nd \<noteq> right then h4(nd := None)
                                           else h4)\<rparr>))))))
      | _ \<Rightarrow> Inl InvalidPointer)"

text \<open>\<^verbatim>\<open>hattrie_split\<close>: a pure bucket gets a new trie node above it and becomes hybrid;
  a hybrid bucket is split in two.\<close>

definition hattrie_split :: "hattrie_t \<Rightarrow> addr \<Rightarrow> addr \<Rightarrow> error + hattrie_t" where
  "hattrie_split T parent nd =
     (case (hat_mem T parent, hat_mem T nd) of
        (Some (TrieNode t), Some (BucketNode b)) \<Rightarrow>
          if b_flag b AND NODE_TYPE_PURE_BUCKET = 0 \<and> b_flag b AND NODE_TYPE_HYBRID_BUCKET = 0
          then Inl AssertionFailed
          else if t_flag t AND NODE_TYPE_TRIE = 0 then Inl AssertionFailed
          else if b_flag b AND NODE_TYPE_PURE_BUCKET \<noteq> 0 then
            (let (a, T1) = alloc_trie_node T nd;
                 h1 = (hat_mem T1)(parent \<mapsto> TrieNode (t\<lparr>t_xs := (t_xs t)(b_c0 b := a)\<rparr>));
                 (h2, b2) =
                   (case ahtable_tryget b [] of
                      Some v \<Rightarrow>
                        (h1(a \<mapsto> TrieNode \<lparr>t_flag = NODE_TYPE_TRIE OR NODE_HAS_VAL, t_val = v,
                                            t_xs = (\<lambda>i. nd)\<rparr>),
                         snd (ahtable_del (ahtable_insert b [] 0) []))
                    | None \<Rightarrow> (h1, b))
             in Inr (T1\<lparr>hat_mem := h2(nd \<mapsto> BucketNode
                          (b2\<lparr>b_c0 := 0x00, b_c1 := TRIE_MAXCHAR,
                              b_flag := NODE_TYPE_HYBRID_BUCKET\<rparr>))\<rparr>))
          else hattrie_split_h T parent nd
      | _ \<Rightarrow> Inl InvalidPointer)"

subsection \<open>Insertion\<close>

text \<open>The block that follows each \<^verbatim>\<open>hattrie_consume\<close> call in \<^verbatim>\<open>hattrie_get\<close>: with the
  key used up, the value lives on a trie node. \<open>None\<close> means that neither \<^verbatim>\<open>return\<close>
  was taken.\<close>

definition get_consumed ::
  "hattrie_t \<Rightarrow> addr \<Rightarrow> addr \<Rightarrow> nat \<Rightarrow> (error + val_ptr \<times> hattrie_t) option"
where
  "get_consumed T parent nd l =
     (if l = 0 then
        (case hat_mem T nd of
           None \<Rightarrow> Some (Inl InvalidPointer)
         | Some n \<Rightarrow>
             if node_flag n AND NODE_TYPE_TRIE \<noteq> 0 then Some (hattrie_useval T nd)
             else if node_flag n AND NODE_TYPE_HYBRID_BUCKET \<noteq> 0
               then Some (hattrie_useval T parent)
             else None)
      else None)"

text \<open>The end of \<^verbatim>\<open>hattrie_get\<close>, after the burst loop: the two assertions and the
  insertion into the bucket.\<close>

definition get_bucket ::
  "hattrie_t \<Rightarrow> addr \<Rightarrow> byte list \<Rightarrow> nat \<Rightarrow> nat \<Rightarrow> error + val_ptr \<times> hattrie_t"
where
  "get_bucket T nd key k l =
     (case hat_mem T nd of
        Some (BucketNode b) \<Rightarrow>
          if b_flag b AND NODE_TYPE_PURE_BUCKET = 0 \<and> b_flag b AND NODE_TYPE_HYBRID_BUCKET = 0
          then Inl AssertionFailed
          else if \<not> l > 0 then Inl AssertionFailed
          else
            (case (if b_flag b AND NODE_TYPE_PURE_BUCKET \<noteq> 0
                   then key_bytes key (k + 1) (l - 1) else key_bytes key k l) of
               Inl e \<Rightarrow> Inl e
             | Inr kb \<Rightarrow>
                 (let b' = ahtable_get b kb
                  in Inr (SlotVal nd kb,
                          T\<lparr>hat_mem := (hat_mem T)(nd \<mapsto> BucketNode b'),
                            hat_m := hat_m T +
                              (of_nat (ahtable_size b') - of_nat (ahtable_size b))\<rparr>)))
      | _ \<Rightarrow> Inl InvalidPointer)"

text \<open>The burst loop of \<^verbatim>\<open>hattrie_get\<close>. Nothing in the code bounds the number of
  rounds, so the loop is a partial function: \<open>None\<close> is a run that does not return.\<close>

partial_function (option) get_loop ::
  "nat \<Rightarrow> hattrie_t \<Rightarrow> byte list \<Rightarrow> addr \<Rightarrow> addr \<Rightarrow> nat \<Rightarrow> nat
     \<Rightarrow> (error + val_ptr \<times> hattrie_t) option"
where
  "get_loop bsz T key parent nd k l =
     (case hat_mem T nd of
        Some (BucketNode b) \<Rightarrow>
          if ahtable_size b \<ge> bsz then
            (case hattrie_split T parent nd of
               Inl e \<Rightarrow> Some (Inl e)
             | Inr T1 \<Rightarrow>
                 (case hattrie_consume (hat_mem T1) key (parent, k, l) 0 of
                    Inl e \<Rightarrow> Some (Inl e)
                  | Inr (parent', k', l', nd') \<Rightarrow>
                      (case get_consumed T1 parent' nd' l' of
                         Some r \<Rightarrow> Some r
                       | None \<Rightarrow> get_loop bsz T1 key parent' nd' k' l')))
          else Some (get_bucket T nd key k l)
      | _ \<Rightarrow> Some (Inl InvalidPointer))"

definition hattrie_get ::
  "nat \<Rightarrow> hattrie_t \<Rightarrow> byte list \<Rightarrow> nat \<Rightarrow> (error + val_ptr \<times> hattrie_t) option"
where
  "hattrie_get bsz T key len =
     (case hat_mem T (hat_root T) of
        None \<Rightarrow> Some (Inl InvalidPointer)
      | Some r \<Rightarrow>
          if node_flag r AND NODE_TYPE_TRIE = 0 then Some (Inl AssertionFailed)
          else if len = 0 then Some (Inr (TrieVal (hat_root T), T))
          else
            (case hattrie_consume (hat_mem T) key (hat_root T, 0, len) 0 of
               Inl e \<Rightarrow> Some (Inl e)
             | Inr (parent, k, l, nd) \<Rightarrow>
                 (case get_consumed T parent nd l of
                    Some r \<Rightarrow> Some r
                  | None \<Rightarrow> get_loop bsz T key parent nd k l)))"

subsection \<open>Iteration\<close>

text \<open>Modelled from the spec: the iterator of the array hash table (section 4.2). It
  walks the records of one table, in the table's enumeration order, or, when
  sorted, lexicographically by key bytes with a shorter prefix first. The walk is
  the list of records still to visit; the current record is its head.\<close>

record ahtable_iter_t =
  ai_table :: addr
  ai_entries :: "(byte list \<times> value_t) list"

definition ahtable_iter_begin :: "addr \<Rightarrow> ahtable_t \<Rightarrow> bool \<Rightarrow> ahtable_iter_t" where
  "ahtable_iter_begin a b srt =
     \<lparr>ai_table = a,
      ai_entries = (if srt then sort_key fst (b_slots b) else b_slots b)\<rparr>"

definition ahtable_iter_finished :: "ahtable_iter_t \<Rightarrow> bool" where
  "ahtable_iter_finished i = (ai_entries i = [])"

definition ahtable_iter_next :: "ahtable_iter_t \<Rightarrow> ahtable_iter_t" where
  "ahtable_iter_next i = i\<lparr>ai_entries := tl (ai_entries i)\<rparr>"

text \<open>\<^verbatim>\<open>hattrie_node_stack_t\<close>; the \<^verbatim>\<open>next\<close> pointers make the stack a list.\<close>

record hattrie_node_stack_t =
  s_c :: byte
  s_level :: nat
  s_node :: addr

text \<open>\<^verbatim>\<open>struct hattrie_iter_t_\<close>. The key buffer is indexed memory; \<open>it_keysize\<close> is the
  space the code has reserved for it.\<close>

record hattrie_iter_t =
  it_key :: "nat \<Rightarrow> byte"
  it_keysize :: nat
  it_level :: nat
  it_has_nil_key :: bool
  it_nil_val :: value_t
  it_sorted :: bool
  it_i :: "ahtable_iter_t option"
  it_stack :: "hattrie_node_stack_t list"

definition hattrie_iter_pushchar :: "hattrie_iter_t \<Rightarrow> nat \<Rightarrow> byte \<Rightarrow> hattrie_iter_t" where
  "hattrie_iter_pushchar i level c =
     i\<lparr>it_keysize := (if it_keysize i < level then it_keysize i * 2 else it_keysize i),
       it_key := (if level > 0 then (it_key i)(level - 1 := c) else it_key i),
       it_level := level\<rparr>"

text \<open>The loop of \<^verbatim>\<open>hattrie_iter_nextnode\<close> that pushes the children from right to left,
  \<open>j\<close> running from \<open>TRIE_MAXCHAR\<close> down to 0.\<close>

definition push_children ::
  "trie_node_t \<Rightarrow> nat \<Rightarrow> hattrie_node_stack_t list \<Rightarrow> hattrie_node_stack_t list"
where
  "push_children t level stack =
     fold (\<lambda>j st. if j < TRIE_MAXCHAR \<and> t_xs t j = t_xs t (j + 1) then st
                   else \<lparr>s_c = of_nat j, s_level = level + 1, s_node = t_xs t j\<rparr> # st)
          (rev [0..<NODE_CHILDS]) stack"

definition hattrie_iter_nextnode :: "heap \<Rightarrow> hattrie_iter_t \<Rightarrow> error + hattrie_iter_t" where
  "hattrie_iter_nextnode h i =
     (case it_stack i of
        [] \<Rightarrow> Inr i
      | fr # next \<Rightarrow>
          (case h (s_node fr) of
             None \<Rightarrow> Inl InvalidPointer
           | Some n \<Rightarrow>
               if node_flag n AND NODE_TYPE_TRIE \<noteq> 0 then
                 (case n of
                    BucketNode b \<Rightarrow> Inl InvalidPointer
                  | TrieNode t \<Rightarrow>
                      (let i1 = hattrie_iter_pushchar (i\<lparr>it_stack := next\<rparr>) (s_level fr) (s_c fr);
                           i2 = (if t_flag t AND NODE_HAS_VAL \<noteq> 0
                                 then i1\<lparr>it_has_nil_key := True, it_nil_val := t_val t\<rparr>
                                 else i1)
                       in Inr (i2\<lparr>it_stack := push_children t (s_level fr) (it_stack i2)\<rparr>)))
               else
                 (case n of
                    TrieNode t \<Rightarrow> Inl InvalidPointer
                  | BucketNode b \<Rightarrow>
                      (let i1 = (if b_flag b AND NODE_TYPE_PURE_BUCKET \<noteq> 0
                                 then hattrie_iter_pushchar (i\<lparr>it_stack := next\<rparr>) (s_level fr) (s_c fr)
                                 else i\<lparr>it_stack := next, it_level := s_level fr - 1\<rparr>)
                       in Inr (i1\<lparr>it_i := Some (ahtable_iter_begin (s_node fr) b (it_sorted i1))\<rparr>)))))"

text \<open>The loop shared by \<^verbatim>\<open>hattrie_iter_begin\<close> and \<^verbatim>\<open>hattrie_iter_next\<close>: pop nodes until a
  bucket iterator stands on a record, a trie node's own key is latched, or the stack is
  empty. The code does not bound it; \<open>None\<close> is a run that does not return.\<close>

partial_function (option) iter_skip :: "heap \<Rightarrow> hattrie_iter_t \<Rightarrow> (error + hattrie_iter_t) option"
where
  "iter_skip h i =
     (if ((case it_i i of None \<Rightarrow> True | Some ai \<Rightarrow> ahtable_iter_finished ai)
            \<and> \<not> it_has_nil_key i) \<and> it_stack i \<noteq> []
      then (case hattrie_iter_nextnode h (i\<lparr>it_i := None\<rparr>) of
              Inl e \<Rightarrow> Some (Inl e)
            | Inr i' \<Rightarrow> iter_skip h i')
      else Some (Inr i))"

text \<open>The statement after that loop: drop a bucket iterator that has run out.\<close>

definition iter_drop_finished :: "hattrie_iter_t \<Rightarrow> hattrie_iter_t" where
  "iter_drop_finished i =
     (case it_i i of
        Some ai \<Rightarrow> if ahtable_iter_finished ai then i\<lparr>it_i := None\<rparr> else i
      | None \<Rightarrow> i)"

definition hattrie_iter_begin :: "hattrie_t \<Rightarrow> bool \<Rightarrow> (error + hattrie_iter_t) option" where
  "hattrie_iter_begin T srt =
     map_option (map_sum id iter_drop_finished)
       (iter_skip (hat_mem T)
          \<lparr>it_key = (\<lambda>n. 0), it_keysize = 16, it_level = 0, it_has_nil_key = False,
           it_nil_val = 0, it_sorted = srt, it_i = None,
           it_stack = [\<lparr>s_c = 0, s_level = 0, s_node = hat_root T\<rparr>]\<rparr>)"

definition hattrie_iter_finished :: "hattrie_iter_t \<Rightarrow> bool" where
  "hattrie_iter_finished i = (it_stack i = [] \<and> it_i i = None \<and> \<not> it_has_nil_key i)"

definition hattrie_iter_next :: "heap \<Rightarrow> hattrie_iter_t \<Rightarrow> (error + hattrie_iter_t) option" where
  "hattrie_iter_next h i =
     (if hattrie_iter_finished i then Some (Inr i)
      else
        (case (case it_i i of
                 Some ai \<Rightarrow>
                   if \<not> ahtable_iter_finished ai
                   then Inr (i\<lparr>it_i := Some (ahtable_iter_next ai)\<rparr>)
                   else if it_has_nil_key i
                   then hattrie_iter_nextnode h (i\<lparr>it_has_nil_key := False, it_nil_val := 0\<rparr>)
                   else Inr i
               | None \<Rightarrow>
                   if it_has_nil_key i
                   then hattrie_iter_nextnode h (i\<lparr>it_has_nil_key := False, it_nil_val := 0\<rparr>)
                   else Inr i) of
           Inl e \<Rightarrow> Some (Inl e)
         | Inr i1 \<Rightarrow> map_option (map_sum id iter_drop_finished) (iter_skip h i1)))"

text \<open>The loop \<^verbatim>\<open>while (i->keysize < i->level + sublen + 1) i->keysize *= 2\<close>. The
  reserved size starts at 16 and only doubles; for a size of 0 the C loop would not
  end, and the model stops.\<close>

function key_reserve :: "nat \<Rightarrow> nat \<Rightarrow> nat" where
  "key_reserve sz need = (if sz < need \<and> 0 < sz then key_reserve (sz * 2) need else sz)"
  by pat_completeness auto
termination
  by (relation "measure (\<lambda>(sz, need). need - sz)") auto

declare key_reserve.simps [simp del]

text \<open>\<^verbatim>\<open>hattrie_iter_key\<close> copies the bucket iterator's key behind the committed prefix and
  answers the buffer and the total length; \<open>None\<close> is the null pointer.\<close>

definition hattrie_iter_key ::
  "hattrie_iter_t \<Rightarrow> error + (byte list \<times> nat) option \<times> hattrie_iter_t"
where
  "hattrie_iter_key i =
     (if hattrie_iter_finished i then Inr (None, i)
      else
        (case (if it_has_nil_key i then Inr []
               else (case it_i i of
                       None \<Rightarrow> Inl InvalidPointer
                     | Some ai \<Rightarrow>
                         (case ai_entries ai of
                            [] \<Rightarrow> Inl InvalidPointer
                          | kv # rest \<Rightarrow> Inr (fst kv)))) of
           Inl e \<Rightarrow> Inl e
         | Inr subkey \<Rightarrow>
             (let sublen = length subkey;
                  sz = key_reserve (it_keysize i) (it_level i + sublen + 1);
                  buf = (\<lambda>n. if it_level i \<le> n \<and> n < it_level i + sublen
                              then subkey ! (n - it_level i)
                              else if n = it_level i + sublen then 0
                              else it_key i n)
              in Inr (Some (map buf [0..<it_level i + sublen], it_level i + sublen),
                      i\<lparr>it_key := buf, it_keysize := sz\<rparr>))))"

text \<open>\<^verbatim>\<open>hattrie_iter_val\<close> answers a pointer either to the iterator's own field
  \<^verbatim>\<open>nil_val\<close> or into a bucket's value slot; \<open>None\<close> is the null pointer.\<close>

datatype iter_val_ptr = NilVal | TableVal val_ptr

definition hattrie_iter_val :: "hattrie_iter_t \<Rightarrow> error + iter_val_ptr option" where
  "hattrie_iter_val i =
     (if it_has_nil_key i then Inr (Some NilVal)
      else if hattrie_iter_finished i then Inr None
      else
        (case it_i i of
           None \<Rightarrow> Inl InvalidPointer
         | Some ai \<Rightarrow>
             (case ai_entries ai of
                [] \<Rightarrow> Inl InvalidPointer
              | kv # rest \<Rightarrow> Inr (Some (TableVal (SlotVal (ai_table ai) (fst kv)))))))"

text \<open>Reading and assigning through a pointer returned by \<^verbatim>\<open>hattrie_iter_val\<close>.\<close>

definition iter_load :: "heap \<Rightarrow> hattrie_iter_t \<Rightarrow> iter_val_ptr \<Rightarrow> value_t option" where
  "iter_load h i p = (case p of NilVal \<Rightarrow> Some (it_nil_val i) | TableVal q \<Rightarrow> load_val h q)"

definition iter_store ::
  "heap \<Rightarrow> hattrie_iter_t \<Rightarrow> iter_val_ptr \<Rightarrow> value_t \<Rightarrow> heap \<times> hattrie_iter_t"
where
  "iter_store h i p v =
     (case p of
        NilVal \<Rightarrow> (h, i\<lparr>it_nil_val := v\<rparr>)
      | TableVal q \<Rightarrow> (store_val h q v, i))"

section \<open>The slab allocator (slab.h, slab.c)\<close>

text \<open>Addresses are machine words. The memory of the allocator is: the slab headers
  and the cache descriptors, each by its address, and the first word of every buffer,
  which threads the free list of its slab. \<open>0\<close> is the null pointer.\<close>

type_synonym ptr = "64 word"

definition SLAB_SIZE :: nat where
  "SLAB_SIZE = 65536"

definition SLAB_MIN_BUFLEN :: nat where
  "SLAB_MIN_BUFLEN = 8"

definition SLAB_MINCOLOR :: nat where
  "SLAB_MINCOLOR = 32"

definition SLAB_MASK :: ptr where
  "SLAB_MASK = NOT (of_nat SLAB_SIZE - 1)"

text \<open>\<^verbatim>\<open>sizeof(slab_t)\<close> and \<^verbatim>\<open>sizeof(void*)\<close> on a platform with 64-bit pointers.\<close>

definition SIZEOF_SLAB_T :: nat where
  "SIZEOF_SLAB_T = 56"

definition SIZEOF_PTR :: nat where
  "SIZEOF_PTR = 8"

definition slab_from_ptr :: "ptr \<Rightarrow> ptr" where
  "slab_from_ptr p = p AND SLAB_MASK"

record slab_t =
  s_bufsize :: "16 word"
  s_cache :: ptr
  s_prev :: ptr
  s_next :: ptr
  s_bufs_count :: "32 word"
  s_bufs_free :: "32 word"
  s_head :: ptr
  s_base :: ptr

record slab_cache_t =
  c_bufsize :: "16 word"
  c_color :: "16 word"
  c_empty :: "16 word"
  c_slabs_free :: ptr
  c_slabs_full :: ptr

record slab_memory =
  m_slab :: "ptr \<Rightarrow> slab_t option"
  m_cache :: "ptr \<Rightarrow> slab_cache_t option"
  m_word :: "ptr \<Rightarrow> ptr"

text \<open>A \<^verbatim>\<open>slab_t**\<close> argument is the address of one of the two list heads of a cache.\<close>

datatype list_head = SlabsFree ptr | SlabsFull ptr

definition read_head :: "slab_memory \<Rightarrow> list_head \<Rightarrow> error + ptr" where
  "read_head M l =
     (case l of
        SlabsFree c \<Rightarrow> (case m_cache M c of Some ca \<Rightarrow> Inr (c_slabs_free ca) | None \<Rightarrow> Inl InvalidPointer)
      | SlabsFull c \<Rightarrow> (case m_cache M c of Some ca \<Rightarrow> Inr (c_slabs_full ca) | None \<Rightarrow> Inl InvalidPointer))"

definition write_head :: "slab_memory \<Rightarrow> list_head \<Rightarrow> ptr \<Rightarrow> error + slab_memory" where
  "write_head M l v =
     (case l of
        SlabsFree c \<Rightarrow>
          (case m_cache M c of
             Some ca \<Rightarrow> Inr (M\<lparr>m_cache := (m_cache M)(c \<mapsto> ca\<lparr>c_slabs_free := v\<rparr>)\<rparr>)
           | None \<Rightarrow> Inl InvalidPointer)
      | SlabsFull c \<Rightarrow>
          (case m_cache M c of
             Some ca \<Rightarrow> Inr (M\<lparr>m_cache := (m_cache M)(c \<mapsto> ca\<lparr>c_slabs_full := v\<rparr>)\<rparr>)
           | None \<Rightarrow> Inl InvalidPointer))"

text \<open>A write to a field of the slab header at \<open>a\<close>.\<close>

definition upd_slab :: "slab_memory \<Rightarrow> ptr \<Rightarrow> (slab_t \<Rightarrow> slab_t) \<Rightarrow> error + slab_memory" where
  "upd_slab M a f =
     (case m_slab M a of
        Some sl \<Rightarrow> Inr (M\<lparr>m_slab := (m_slab M)(a \<mapsto> f sl)\<rparr>)
      | None \<Rightarrow> Inl InvalidPointer)"

definition slab_list_remove :: "slab_memory \<Rightarrow> ptr \<Rightarrow> error + slab_memory" where
  "slab_list_remove M slab =
     (case m_slab M slab of
        None \<Rightarrow> Inl InvalidPointer
      | Some sl \<Rightarrow>
          (case (if s_prev sl \<noteq> 0 then upd_slab M (s_prev sl) (\<lambda>x. x\<lparr>s_next := s_next sl\<rparr>)
                 else Inr M) of
             Inl e \<Rightarrow> Inl e
           | Inr M1 \<Rightarrow>
               (case (if s_next sl \<noteq> 0 then upd_slab M1 (s_next sl) (\<lambda>x. x\<lparr>s_prev := s_prev sl\<rparr>)
                      else Inr M1) of
                  Inl e \<Rightarrow> Inl e
                | Inr M2 \<Rightarrow>
                    (case m_cache M2 (s_cache sl) of
                       None \<Rightarrow> Inl InvalidPointer
                     | Some ca \<Rightarrow>
                         if c_slabs_free ca = slab
                         then write_head M2 (SlabsFree (s_cache sl)) (s_next sl)
                         else if c_slabs_full ca = slab
                         then write_head M2 (SlabsFull (s_cache sl)) (s_next sl)
                         else Inr M2))))"

definition slab_list_insert :: "slab_memory \<Rightarrow> list_head \<Rightarrow> ptr \<Rightarrow> error + slab_memory" where
  "slab_list_insert M l item =
     (case read_head M l of
        Inl e \<Rightarrow> Inl e
      | Inr hd0 \<Rightarrow>
          (case upd_slab M item (\<lambda>x. x\<lparr>s_prev := 0, s_next := hd0\<rparr>) of
             Inl e \<Rightarrow> Inl e
           | Inr M1 \<Rightarrow>
               (case (if hd0 \<noteq> 0 then upd_slab M1 hd0 (\<lambda>x. x\<lparr>s_prev := item\<rparr>) else Inr M1) of
                  Inl e \<Rightarrow> Inl e
                | Inr M2 \<Rightarrow> write_head M2 l item)))"

definition slab_list_move :: "slab_memory \<Rightarrow> list_head \<Rightarrow> ptr \<Rightarrow> error + slab_memory" where
  "slab_list_move M target slab =
     (case slab_list_remove M slab of
        Inl e \<Rightarrow> Inl e
      | Inr M1 \<Rightarrow> slab_list_insert M1 target slab)"

text \<open>\<^verbatim>\<open>slab_create\<close>. \<open>fresh\<close> is the block \<^verbatim>\<open>posix_memalign\<close> hands out, or 0 when it
  fails. The loop that threads the free list runs \<open>bufs_count - 1\<close> times in unsigned
  arithmetic; with no buffer at all it would run off the slab.\<close>

definition thread_bufs :: "(ptr \<Rightarrow> ptr) \<Rightarrow> ptr \<Rightarrow> nat \<Rightarrow> nat \<Rightarrow> ptr \<Rightarrow> ptr" where
  "thread_bufs w base item_size n =
     (fold (\<lambda>i f. f(base + of_nat (i * item_size) := base + of_nat (Suc i * item_size)))
        [0..<n - 1] w)
     (base + of_nat ((n - 1) * item_size) := 0)"

definition slab_create :: "slab_memory \<Rightarrow> ptr \<Rightarrow> ptr \<Rightarrow> error + ptr \<times> slab_memory" where
  "slab_create M cache fresh =
     (if fresh = 0 then Inr (0, M)
      else
        (case m_cache M cache of
           None \<Rightarrow> Inl InvalidPointer
         | Some ca0 \<Rightarrow>
             (let sl0 = \<lparr>s_bufsize = 0, s_cache = cache, s_prev = 0, s_next = 0,
                         s_bufs_count = 0, s_bufs_free = 0, s_head = 0, s_base = 0\<rparr>
              in case slab_list_insert (M\<lparr>m_slab := (m_slab M)(fresh \<mapsto> sl0)\<rparr>)
                        (SlabsFree cache) fresh of
                   Inl e \<Rightarrow> Inl e
                 | Inr M1 \<Rightarrow>
                     if 0 = c_bufsize ca0 then Inr (fresh, M1)
                     else
                       (let item_size = max (unat (c_bufsize ca0)) SLAB_MIN_BUFLEN;
                            data_size = SLAB_SIZE - SIZEOF_SLAB_T;
                            free_space = max (data_size mod item_size) SLAB_MINCOLOR;
                            color16 = c_color ca0 + of_nat SIZEOF_PTR;
                            color = unat color16 mod free_space;
                            count = (data_size - color) div item_size;
                            base = fresh + of_nat (SIZEOF_SLAB_T + color)
                        in if count = 0 then Inl OutOfBounds
                           else
                             (case m_cache M1 cache of
                                None \<Rightarrow> Inl InvalidPointer
                              | Some ca1 \<Rightarrow>
                                  (case upd_slab
                                          (M1\<lparr>m_cache := (m_cache M1)(cache \<mapsto> ca1\<lparr>c_color := color16\<rparr>)\<rparr>)
                                          fresh
                                          (\<lambda>x. x\<lparr>s_bufsize := c_bufsize ca0,
                                                 s_bufs_count := of_nat count,
                                                 s_bufs_free := of_nat count,
                                                 s_base := base, s_head := base\<rparr>) of
                                     Inl e \<Rightarrow> Inl e
                                   | Inr M2 \<Rightarrow>
                                       Inr (fresh,
                                            M2\<lparr>m_word :=
                                                 thread_bufs (m_word M2) base item_size count\<rparr>)))))))"

definition slab_alloc :: "slab_memory \<Rightarrow> ptr \<Rightarrow> error + ptr \<times> slab_memory" where
  "slab_alloc M slab =
     (case m_slab M slab of
        None \<Rightarrow> Inl InvalidPointer
      | Some sl \<Rightarrow>
          if s_head sl = 0 then Inr (0, M)
          else
            (let item = s_head sl;
                 sl' = sl\<lparr>s_head := m_word M item, s_bufs_free := s_bufs_free sl - 1\<rparr>;
                 M1 = M\<lparr>m_slab := (m_slab M)(slab \<mapsto> sl')\<rparr>
             in if s_bufs_free sl' = 0 then
                  (case slab_list_move M1 (SlabsFull (s_cache sl')) slab of
                     Inl e \<Rightarrow> Inl e
                   | Inr M2 \<Rightarrow> Inr (item, M2))
                else Inr (item, M1)))"

definition slab_free :: "slab_memory \<Rightarrow> ptr \<Rightarrow> error + slab_memory" where
  "slab_free M p =
     (if p = 0 then Inr M
      else
        (let slab = slab_from_ptr p
         in if slab = 0 then Inl AssertionFailed
            else
              (case m_slab M slab of
                 None \<Rightarrow> Inl InvalidPointer
               | Some sl \<Rightarrow>
                   (let sl' = sl\<lparr>s_head := p, s_bufs_free := s_bufs_free sl + 1\<rparr>;
                        M1 = M\<lparr>m_word := (m_word M)(p := s_head sl),
                               m_slab := (m_slab M)(slab \<mapsto> sl')\<rparr>
                    in if s_bufs_free sl' = 1
                       then slab_list_move M1 (SlabsFree (s_cache sl')) slab
                       else Inr M1))))"

definition slab_cache_init :: "slab_memory \<Rightarrow> ptr \<Rightarrow> 16 word \<Rightarrow> int \<times> slab_memory" where
  "slab_cache_init M cache bufsize =
     (if bufsize = 0 then (-1, M)
      else (0, M\<lparr>m_cache := (m_cache M)(cache \<mapsto>
                 \<lparr>c_bufsize = bufsize, c_color = 0, c_empty = 0,
                  c_slabs_free = 0, c_slabs_full = 0\<rparr>)\<rparr>))"

definition slab_cache_alloc :: "slab_memory \<Rightarrow> ptr \<Rightarrow> ptr \<Rightarrow> error + ptr \<times> slab_memory" where
  "slab_cache_alloc M cache fresh =
     (case m_cache M cache of
        None \<Rightarrow> Inl InvalidPointer
      | Some ca \<Rightarrow>
          if c_slabs_free ca = 0 then
            (case slab_create M cache fresh of
               Inl e \<Rightarrow> Inl e
             | Inr (slab, M1) \<Rightarrow> if slab = 0 then Inr (0, M1) else slab_alloc M1 slab)
          else slab_alloc M (c_slabs_free ca))"

text \<open>The lists the claims speak of. \<open>chain nx p xs\<close>: following \<open>nx\<close> from \<open>p\<close> visits
  exactly \<open>xs\<close> and ends in the null pointer; it reads the free list of a slab through
  \<open>m_word\<close>. \<open>slab_list S pv p xs\<close>: the doubly linked list of slab headers that starts
  at \<open>p\<close>, whose first element has \<open>pv\<close> as its \<^verbatim>\<open>prev\<close>.\<close>

fun chain :: "(ptr \<Rightarrow> ptr) \<Rightarrow> ptr \<Rightarrow> ptr list \<Rightarrow> bool" where
  "chain nx p [] = (p = 0)"
| "chain nx p (x # xs) = (p = x \<and> p \<noteq> 0 \<and> chain nx (nx p) xs)"

fun slab_list :: "(ptr \<Rightarrow> slab_t option) \<Rightarrow> ptr \<Rightarrow> ptr \<Rightarrow> ptr list \<Rightarrow> bool" where
  "slab_list S pv p [] = (p = 0)"
| "slab_list S pv p (x # xs) =
     (p = x \<and> p \<noteq> 0 \<and>
      (case S p of
         None \<Rightarrow> False
       | Some sl \<Rightarrow> s_prev sl = pv \<and> slab_list S p (s_next sl) xs))"

text \<open>The state in which a buffer \<open>p\<close> of the cache \<open>cache\<close> is allocated: its slab is
  on the full list when it has no free buffer and on the free list otherwise, the two
  lists are \<open>fl\<close> and \<open>ful\<close>, the slab's free buffers are \<open>bufs\<close>, and \<open>p\<close> is not one of
  them.\<close>

definition allocated_in ::
  "slab_memory \<Rightarrow> ptr \<Rightarrow> ptr \<Rightarrow> ptr list \<Rightarrow> ptr list \<Rightarrow> ptr list \<Rightarrow> bool"
where
  "allocated_in M cache p fl ful bufs =
     (p \<noteq> 0 \<and> slab_from_ptr p \<noteq> 0 \<and>
      (case (m_cache M cache, m_slab M (slab_from_ptr p)) of
         (Some ca, Some sl) \<Rightarrow>
           s_cache sl = cache \<and>
           slab_list (m_slab M) 0 (c_slabs_free ca) fl \<and>
           slab_list (m_slab M) 0 (c_slabs_full ca) ful \<and>
           distinct (fl @ ful) \<and>
           (if s_bufs_free sl = 0 then slab_from_ptr p \<in> set ful else slab_from_ptr p \<in> set fl) \<and>
           chain (m_word M) (s_head sl) bufs \<and> p \<notin> set bufs
       | _ \<Rightarrow> False))"

text \<open>The headers after \<^verbatim>\<open>slab_list_remove\<close> has linked the two neighbours of the slab
  with header \<open>sl\<close> to each other.\<close>

definition unlinked :: "(ptr \<Rightarrow> slab_t option) \<Rightarrow> slab_t \<Rightarrow> ptr \<Rightarrow> slab_t option" where
  "unlinked S sl =
     (let S1 = (if s_prev sl \<noteq> 0
                then (case S (s_prev sl) of
                        Some x \<Rightarrow> S(s_prev sl \<mapsto> x\<lparr>s_next := s_next sl\<rparr>)
                      | None \<Rightarrow> S)
                else S)
      in if s_next sl \<noteq> 0
         then (case S1 (s_next sl) of
                 Some x \<Rightarrow> S1(s_next sl \<mapsto> x\<lparr>s_prev := s_prev sl\<rparr>)
               | None \<Rightarrow> S1)
         else S1)"

text \<open>An example: a cache for buffers of 40000 bytes, so that a slab holds one buffer.
  \<open>slab_full_example\<close> is the memory after \<^verbatim>\<open>slab_cache_init\<close> and one
  \<^verbatim>\<open>slab_cache_alloc\<close>, which returned the buffer 65600 of the slab at 65536.\<close>

definition slab_start :: slab_memory where
  "slab_start = \<lparr>m_slab = Map.empty, m_cache = Map.empty, m_word = (\<lambda>a. 0)\<rparr>"

definition slab_full_example :: slab_memory where
  "slab_full_example =
     \<lparr>m_slab = [65536 \<mapsto> \<lparr>s_bufsize = 40000, s_cache = 4096, s_prev = 0, s_next = 0,
                          s_bufs_count = 1, s_bufs_free = 0, s_head = 0, s_base = 65600\<rparr>],
      m_cache = [4096 \<mapsto> \<lparr>c_bufsize = 40000, c_color = 8, c_empty = 0,
                           c_slabs_free = 0, c_slabs_full = 65536\<rparr>],
      m_word = (\<lambda>a. 0)\<rparr>"

section \<open>The data model: stored keys and well-formed containers\<close>

text \<open>The value the structure stores for a key, read off the nodes as section 3 of the
  specification describes them: a key that ends on a trie node is stored in that
  node's value when \<open>NODE_HAS_VAL\<close> is set; a key whose path leaves the trie into a
  pure bucket is stored there without the byte of the edge, and into a hybrid bucket
  with it.\<close>

fun trie_lookup :: "heap \<Rightarrow> addr \<Rightarrow> byte list \<Rightarrow> value_t option" where
  "trie_lookup h a [] =
     (case h a of
        Some (TrieNode t) \<Rightarrow> if t_flag t AND NODE_HAS_VAL \<noteq> 0 then Some (t_val t) else None
      | _ \<Rightarrow> None)"
| "trie_lookup h a (c # cs) =
     (case h a of
        Some (TrieNode t) \<Rightarrow>
          (case h (t_xs t (unat c)) of
             Some (TrieNode t') \<Rightarrow> trie_lookup h (t_xs t (unat c)) cs
           | Some (BucketNode b) \<Rightarrow>
               if b_flag b AND NODE_TYPE_PURE_BUCKET \<noteq> 0 then map_of (b_slots b) cs
               else map_of (b_slots b) (c # cs)
           | None \<Rightarrow> None)
      | _ \<Rightarrow> None)"

definition contents :: "hattrie_t \<Rightarrow> byte list \<Rightarrow> value_t option" where
  "contents T = trie_lookup (hat_mem T) (hat_root T)"

text \<open>The invariants of section 3.6, for every node of the store. A bucket is pure or
  hybrid, covers the byte range \<open>c0\<close> to \<open>c1\<close>, which is a single byte exactly for a pure
  bucket, stores each key once, and a hybrid bucket stores only keys that begin with a
  byte of its range.\<close>

definition bucket_ok :: "ahtable_t \<Rightarrow> bool" where
  "bucket_ok b =
     ((b_flag b = NODE_TYPE_PURE_BUCKET \<or> b_flag b = NODE_TYPE_HYBRID_BUCKET) \<and>
      b_c0 b \<le> b_c1 b \<and> b_c1 b \<le> TRIE_MAXCHAR \<and>
      (b_flag b = NODE_TYPE_PURE_BUCKET) = (b_c0 b = b_c1 b) \<and>
      distinct (map fst (b_slots b)) \<and>
      (b_flag b = NODE_TYPE_HYBRID_BUCKET \<longrightarrow>
         (\<forall>k \<in> set (map fst (b_slots b)). k \<noteq> [] \<and> b_c0 b \<le> unat (hd k) \<and> unat (hd k) \<le> b_c1 b)))"

text \<open>Slot \<open>c\<close> of a trie node points to a node of the store; when that is a bucket,
  \<open>c\<close> lies in the bucket's range and every slot of the range points to it.\<close>

definition child_ok :: "heap \<Rightarrow> trie_node_t \<Rightarrow> nat \<Rightarrow> bool" where
  "child_ok h t c =
     (case h (t_xs t c) of
        None \<Rightarrow> False
      | Some (TrieNode t') \<Rightarrow> True
      | Some (BucketNode b) \<Rightarrow>
          b_c0 b \<le> c \<and> c \<le> b_c1 b \<and>
          (\<forall>c'. b_c0 b \<le> c' \<and> c' \<le> b_c1 b \<longrightarrow> t_xs t c' = t_xs t c))"

definition trie_ok :: "heap \<Rightarrow> trie_node_t \<Rightarrow> bool" where
  "trie_ok h t =
     ((t_flag t = NODE_TYPE_TRIE \<or> t_flag t = NODE_TYPE_TRIE OR NODE_HAS_VAL) \<and>
      (\<forall>c \<le> TRIE_MAXCHAR. child_ok h t c))"

text \<open>No node has two parents, and a trie node hangs below one slot only.\<close>

definition no_share :: "heap \<Rightarrow> bool" where
  "no_share h =
     (\<forall>p t p' t' c c'.
        h p = Some (TrieNode t) \<and> h p' = Some (TrieNode t') \<and>
        c \<le> TRIE_MAXCHAR \<and> c' \<le> TRIE_MAXCHAR \<and> t_xs t c = t_xs t' c'
        \<longrightarrow> p = p' \<and> (c = c' \<or> (\<exists>b. h (t_xs t c) = Some (BucketNode b))))"

text \<open>The trie nodes form a forest: some height decreases along every trie edge.\<close>

definition ranked :: "heap \<Rightarrow> (addr \<Rightarrow> nat) \<Rightarrow> bool" where
  "ranked h rk =
     (\<forall>p t c t'.
        h p = Some (TrieNode t) \<and> c \<le> TRIE_MAXCHAR \<and> h (t_xs t c) = Some (TrieNode t')
        \<longrightarrow> rk (t_xs t c) < rk p)"

definition hattrie_inv :: "hattrie_t \<Rightarrow> bool" where
  "hattrie_inv T =
     ((\<exists>r. hat_mem T (hat_root T) = Some (TrieNode r)) \<and>
      (\<forall>a \<ge> hat_next T. hat_mem T a = None) \<and>
      (\<forall>a t. hat_mem T a = Some (TrieNode t) \<longrightarrow> trie_ok (hat_mem T) t) \<and>
      (\<forall>a b. hat_mem T a = Some (BucketNode b) \<longrightarrow> bucket_ok b) \<and>
      no_share (hat_mem T) \<and>
      (\<exists>rk. ranked (hat_mem T) rk))"

text \<open>The records a split hands to one side, as that side stores them: a pure bucket
  stores a key without its first byte.\<close>

definition split_part :: "bool \<Rightarrow> (byte list \<times> value_t) list \<Rightarrow> (byte list \<times> value_t) list" where
  "split_part pure es = map (\<lambda>kv. (if pure then tl (fst kv) else fst kv, snd kv)) es"

text \<open>The store after \<^verbatim>\<open>hattrie_split_h\<close> has split the bucket \<open>b\<close> at \<open>nd\<close> below the trie
  node \<open>t\<close> at \<open>parent\<close> behind the byte \<open>j\<close> into the buckets at \<open>left\<close> and \<open>right\<close>.\<close>

definition split_h_mem ::
  "heap \<Rightarrow> addr \<Rightarrow> trie_node_t \<Rightarrow> addr \<Rightarrow> ahtable_t \<Rightarrow> nat \<Rightarrow> addr \<Rightarrow> addr \<Rightarrow> heap"
where
  "split_h_mem h parent t nd b j left right =
     (\<lambda>x. if x = parent then
             Some (TrieNode (t\<lparr>t_xs := (\<lambda>c. if b_c0 b \<le> c \<and> c \<le> j then left
                                              else if j < c \<and> c \<le> b_c1 b then right
                                              else t_xs t c)\<rparr>))
           else if x = left then
             Some (BucketNode
               \<lparr>b_flag = (if b_c0 b = j then NODE_TYPE_PURE_BUCKET else NODE_TYPE_HYBRID_BUCKET),
                b_c0 = b_c0 b, b_c1 = j,
                b_slots = split_part (b_c0 b = j)
                            (filter (\<lambda>kv. unat (hd (fst kv)) \<le> j) (b_slots b))\<rparr>)
           else if x = right then
             Some (BucketNode
               \<lparr>b_flag = (if j + 1 = b_c1 b then NODE_TYPE_PURE_BUCKET else NODE_TYPE_HYBRID_BUCKET),
                b_c0 = j + 1, b_c1 = b_c1 b,
                b_slots = split_part (j + 1 = b_c1 b)
                            (filter (\<lambda>kv. \<not> unat (hd (fst kv)) \<le> j) (b_slots b))\<rparr>)
           else if x = nd then None
           else h x)"

text \<open>The store after \<^verbatim>\<open>hattrie_split\<close> has put the new trie node at \<open>a\<close> between the trie
  node \<open>t\<close> at \<open>parent\<close> and the pure bucket \<open>b\<close> at \<open>nd\<close>.\<close>

definition split_p_mem :: "heap \<Rightarrow> addr \<Rightarrow> trie_node_t \<Rightarrow> addr \<Rightarrow> ahtable_t \<Rightarrow> addr \<Rightarrow> heap" where
  "split_p_mem h parent t nd b a =
     h(a \<mapsto> TrieNode
              \<lparr>t_flag = (if map_of (b_slots b) [] = None then NODE_TYPE_TRIE
                         else NODE_TYPE_TRIE OR NODE_HAS_VAL),
               t_val = (case map_of (b_slots b) [] of None \<Rightarrow> 0 | Some v \<Rightarrow> v),
               t_xs = (\<lambda>i. nd)\<rparr>,
       parent \<mapsto> TrieNode (t\<lparr>t_xs := (t_xs t)(b_c0 b := a)\<rparr>),
       nd \<mapsto> BucketNode
              \<lparr>b_flag = NODE_TYPE_HYBRID_BUCKET, b_c0 = 0, b_c1 = TRIE_MAXCHAR,
               b_slots = filter (\<lambda>kv. fst kv \<noteq> []) (b_slots b)\<rparr>)"

section \<open>Clients and example containers\<close>

text \<open>A caller's sequence of operations on a container. \<open>Get key len (Some v)\<close> is
  \<^verbatim>\<open>*hattrie_get(T, key, len) = v\<close>; \<open>Get key len None\<close> leaves the returned slot as
  it is. The run stops at the first operation that fails or does not return.\<close>

datatype op = Get "byte list" nat "value_t option" | TryGet "byte list" nat | Del "byte list" nat

definition run_op :: "nat \<Rightarrow> hattrie_t \<Rightarrow> op \<Rightarrow> hattrie_t option" where
  "run_op bsz T x =
     (case x of
        Get key len w \<Rightarrow>
          (case hattrie_get bsz T key len of
             Some (Inr (p, T')) \<Rightarrow>
               (case w of
                  None \<Rightarrow> Some T'
                | Some v \<Rightarrow> Some (T'\<lparr>hat_mem := store_val (hat_mem T') p v\<rparr>))
           | _ \<Rightarrow> None)
      | TryGet key len \<Rightarrow>
          (case hattrie_tryget T key len of Inr r \<Rightarrow> Some T | Inl e \<Rightarrow> None)
      | Del key len \<Rightarrow>
          (case hattrie_del T key len of Inr (ret, T') \<Rightarrow> Some T' | Inl e \<Rightarrow> None))"

fun run_ops :: "nat \<Rightarrow> hattrie_t \<Rightarrow> op list \<Rightarrow> hattrie_t option" where
  "run_ops bsz T [] = Some T"
| "run_ops bsz T (x # rest) =
     (case run_op bsz T x of None \<Rightarrow> None | Some T' \<Rightarrow> run_ops bsz T' rest)"

text \<open>A parent trie node with a pure bucket below slot 98 that holds the empty key,
  as it stands after the keys \<open>[97, 1]\<close>, \<open>[98, 1]\<close>, \<open>[99, 1]\<close>, \<open>[98]\<close> with a burst
  threshold of 2.\<close>

definition pure_parent :: trie_node_t where
  "pure_parent =
     \<lparr>t_flag = NODE_TYPE_TRIE, t_val = 0,
      t_xs = (\<lambda>i. if i < 98 then 3 else if i = 98 then 4 else 1)\<rparr>"

definition pure_bucket :: ahtable_t where
  "pure_bucket =
     \<lparr>b_flag = NODE_TYPE_PURE_BUCKET, b_c0 = 98, b_c1 = 98, b_slots = [([1], 2), ([], 4)]\<rparr>"

definition pure_example :: hattrie_t where
  "pure_example =
     \<lparr>hat_root = 2, hat_m = 4,
      hat_mem =
        [1 \<mapsto> BucketNode \<lparr>b_flag = NODE_TYPE_HYBRID_BUCKET, b_c0 = 99, b_c1 = 255,
                            b_slots = [([99, 1], 3)]\<rparr>,
         2 \<mapsto> TrieNode pure_parent,
         3 \<mapsto> BucketNode \<lparr>b_flag = NODE_TYPE_HYBRID_BUCKET, b_c0 = 0, b_c1 = 97,
                            b_slots = [([97, 1], 1)]\<rparr>,
         4 \<mapsto> BucketNode pure_bucket],
      hat_next = 5\<rparr>"

text \<open>An iterator standing on the key of a trie node (the latch \<^verbatim>\<open>has_nil_key\<close> is set),
  two bytes deep.\<close>

definition nil_key_iter :: hattrie_iter_t where
  "nil_key_iter =
     \<lparr>it_key = (\<lambda>n. if n = 0 then 97 else if n = 1 then 98 else 0), it_keysize = 16,
      it_level = 2, it_has_nil_key = True, it_nil_val = 4, it_sorted = True, it_i = None,
      it_stack = []\<rparr>"

text \<open>The scenario of the insert-then-lookup law: \<^verbatim>\<open>*hattrie_get(T, key, len) = v\<close>
  followed at once by \<^verbatim>\<open>hattrie_tryget(T, key, len)\<close>. The answer is what the returned
  pointer holds, or \<open>None\<close> for the null pointer.\<close>

definition get_store_tryget ::
  "nat \<Rightarrow> hattrie_t \<Rightarrow> byte list \<Rightarrow> nat \<Rightarrow> value_t \<Rightarrow> (error + value_t option) option"
where
  "get_store_tryget bsz T key len v =
     (case hattrie_get bsz T key len of
        None \<Rightarrow> None
      | Some (Inl e) \<Rightarrow> Some (Inl e)
      | Some (Inr (p, T')) \<Rightarrow>
          (let h = store_val (hat_mem T') p v
           in case hattrie_tryget (T'\<lparr>hat_mem := h\<rparr>) key len of
                Inl e \<Rightarrow> Some (Inl e)
              | Inr None \<Rightarrow> Some (Inr None)
              | Inr (Some q) \<Rightarrow>
                  (case load_val h q of
                     None \<Rightarrow> Some (Inl InvalidPointer)
                   | Some u \<Rightarrow> Some (Inr (Some u)))))"

text \<open>Three keys with the common prefix \<open>[97, 98]\<close> in a build with a burst threshold
  of 2. The third insertion bursts the root's bucket down to a trie node for the byte
  97 with a trie node for the byte 98 below it.\<close>

definition burst_ops :: "op list" where
  "burst_ops =
     [Get [97, 98, 1] 3 (Some 1), Get [97, 98, 2] 3 (Some 2), Get [97, 98, 3] 3 (Some 3)]"

definition burst_example :: "hattrie_t option" where
  "burst_example = run_ops 2 hattrie_create burst_ops"

text \<open>Four keys, again with a threshold of 2; the last one is the single byte 98 and
  arrives when slot 98 of the root holds a pure bucket.\<close>

definition pure_ops :: "op list" where
  "pure_ops =
     [Get [97, 1] 2 (Some 1), Get [98, 1] 2 (Some 2), Get [99, 1] 2 (Some 3),
      Get [98] 1 (Some 4)]"

text \<open>The addresses below \<^verbatim>\<open>hat_next\<close> that hold a bucket with a zero-length record.\<close>

definition empty_key_buckets :: "hattrie_t \<Rightarrow> addr list" where
  "empty_key_buckets T =
     filter (\<lambda>a. case hat_mem T a of
                   Some (BucketNode b) \<Rightarrow> map_of (b_slots b) [] \<noteq> None
                 | _ \<Rightarrow> False)
       [0..<hat_next T]"

section \<open>Facts about the array hash table\<close>

lemma delete_eq_filter: "AList.delete k al = filter (\<lambda>kv. fst kv \<noteq> k) al"
  by (induction al) auto

lemma filter_update_same:
  "filter (\<lambda>kv. fst kv \<noteq> k) (AList.update k v al) = filter (\<lambda>kv. fst kv \<noteq> k) al"
  using delete_update_same [of k v al] by (simp add: delete_eq_filter)

lemma delete_absent: "map_of al k = None \<Longrightarrow> AList.delete k al = al"
  by (induction al) (auto split: if_splits)

lemma snd_ahtable_del: "snd (ahtable_del b k) = b\<lparr>b_slots := AList.delete k (b_slots b)\<rparr>"
  by (simp add: ahtable_del_def delete_absent split: option.split)

section \<open>The empty key\<close>

lemma hattrie_create_root: "hat_root hattrie_create = 2"
  by (simp add: hattrie_create_def alloc_node_def alloc_trie_node_def Let_def)

lemma hattrie_create_root_node:
  "hat_mem hattrie_create 2 = Some (TrieNode \<lparr>t_flag = NODE_TYPE_TRIE, t_val = 0, t_xs = (\<lambda>i. 1)\<rparr>)"
  by (simp add: hattrie_create_def alloc_node_def alloc_trie_node_def Let_def)

lemma hattrie_create_m: "hat_m hattrie_create = 0"
  by (simp add: hattrie_create_def alloc_node_def alloc_trie_node_def Let_def)

text \<open>C3. Inserting the empty key should set \<open>NODE_HAS_VAL\<close> on the root and count the
  key when the flag was clear. On a fresh container \<^verbatim>\<open>hattrie_get(T, key, 0)\<close> returns
  the address of the root's value and leaves the container as it was: the key count
  stays 0 and the root's flag byte has no \<open>NODE_HAS_VAL\<close> bit.\<close>

theorem hattrie_get_empty_key_fresh:
  "hattrie_get TRIE_BUCKET_SIZE hattrie_create [] 0 =
     Some (Inr (TrieVal (hat_root hattrie_create), hattrie_create))
   \<and> hat_m hattrie_create = 0
   \<and> map_option (\<lambda>n. node_flag n AND NODE_HAS_VAL)
        (hat_mem hattrie_create (hat_root hattrie_create)) = Some 0"
  by (simp add: hattrie_get_def hattrie_create_root hattrie_create_root_node hattrie_create_m
      NODE_TYPE_TRIE_def NODE_HAS_VAL_def)

text \<open>C4. Looking up the empty key should answer null while the root has no
  \<open>NODE_HAS_VAL\<close>. On a fresh container, whose root has the flag clear,
  \<^verbatim>\<open>hattrie_tryget(T, key, 0)\<close> returns the address of the root's value.\<close>

theorem hattrie_tryget_empty_key_fresh:
  "hattrie_tryget hattrie_create [] 0 = Inr (Some (TrieVal (hat_root hattrie_create)))
   \<and> map_option (\<lambda>n. node_flag n AND NODE_HAS_VAL)
        (hat_mem hattrie_create (hat_root hattrie_create)) = Some 0"
  by (simp add: hattrie_tryget_def hattrie_find_def hattrie_create_root hattrie_create_root_node
      NODE_TYPE_TRIE_def NODE_HAS_VAL_def)

section \<open>Promotion of a pure bucket\<close>

lemma hattrie_split_pure_eq:
  assumes par: "hat_mem T parent = Some (TrieNode t)"
    and tr: "t_flag t AND NODE_TYPE_TRIE \<noteq> 0"
    and nd: "hat_mem T nd = Some (BucketNode b)"
    and pure: "b_flag b AND NODE_TYPE_PURE_BUCKET \<noteq> 0"
    and fresh: "hat_mem T (hat_next T) = None"
  shows "hattrie_split T parent nd =
     Inr (T\<lparr>hat_mem := (hat_mem T)
              (hat_next T \<mapsto> TrieNode
                 \<lparr>t_flag = (if map_of (b_slots b) [] = None then NODE_TYPE_TRIE
                            else NODE_TYPE_TRIE OR NODE_HAS_VAL),
                  t_val = (case map_of (b_slots b) [] of None \<Rightarrow> 0 | Some v \<Rightarrow> v),
                  t_xs = (\<lambda>i. nd)\<rparr>,
               parent \<mapsto> TrieNode (t\<lparr>t_xs := (t_xs t)(b_c0 b := hat_next T)\<rparr>),
               nd \<mapsto> BucketNode
                 \<lparr>b_flag = NODE_TYPE_HYBRID_BUCKET, b_c0 = 0, b_c1 = TRIE_MAXCHAR,
                  b_slots = filter (\<lambda>kv. fst kv \<noteq> []) (b_slots b)\<rparr>),
            hat_next := Suc (hat_next T)\<rparr>)"
proof -
  have ne: "parent \<noteq> hat_next T" "nd \<noteq> hat_next T" "parent \<noteq> nd"
    using par nd fresh by auto
  show ?thesis
  proof (cases "map_of (b_slots b) []")
    case None
    then have "filter (\<lambda>kv. fst kv \<noteq> []) (b_slots b) = b_slots b"
      by (auto simp: filter_id_conv map_of_eq_None_iff image_iff)
    with None show ?thesis
      using par tr nd pure ne
      by (simp add: hattrie_split_def alloc_trie_node_def alloc_node_def ahtable_tryget_def)
        (rule hattrie_t.equality; simp add: fun_eq_iff)
  next
    case (Some v)
    then show ?thesis
      using par tr nd pure ne
      by (simp add: hattrie_split_def alloc_trie_node_def alloc_node_def ahtable_tryget_def
          snd_ahtable_del ahtable_insert_def delete_eq_filter filter_update_same)
        (rule hattrie_t.equality; simp add: fun_eq_iff)
  qed
qed

text \<open>C7. \<^verbatim>\<open>hattrie_split\<close> on a pure bucket \<open>b\<close> at \<open>nd\<close> below the trie node \<open>t\<close> at
  \<open>parent\<close> returns the container in which: slot \<open>b_c0 b\<close> of the parent points to the
  newly allocated trie node; every child slot of that node points to \<open>nd\<close>; the new
  node carries the value of the zero-length key and \<open>NODE_HAS_VAL\<close> exactly when the
  bucket held that key; the bucket is hybrid with range 0 to \<open>TRIE_MAXCHAR\<close> and has
  lost only the zero-length record. Nothing else changes.\<close>

theorem hattrie_split_pure_bucket:
  assumes par: "hat_mem T parent = Some (TrieNode t)"
    and tr: "t_flag t AND NODE_TYPE_TRIE \<noteq> 0"
    and nd: "hat_mem T nd = Some (BucketNode b)"
    and pure: "b_flag b AND NODE_TYPE_PURE_BUCKET \<noteq> 0"
    and fresh: "hat_mem T (hat_next T) = None"
  shows "hattrie_split T parent nd =
     Inr (T\<lparr>hat_mem := (hat_mem T)
              (hat_next T \<mapsto> TrieNode
                 \<lparr>t_flag = (if map_of (b_slots b) [] = None then NODE_TYPE_TRIE
                            else NODE_TYPE_TRIE OR NODE_HAS_VAL),
                  t_val = (case map_of (b_slots b) [] of None \<Rightarrow> 0 | Some v \<Rightarrow> v),
                  t_xs = (\<lambda>i. nd)\<rparr>,
               parent \<mapsto> TrieNode (t\<lparr>t_xs := (t_xs t)(b_c0 b := hat_next T)\<rparr>),
               nd \<mapsto> BucketNode
                 \<lparr>b_flag = NODE_TYPE_HYBRID_BUCKET, b_c0 = 0, b_c1 = TRIE_MAXCHAR,
                  b_slots = filter (\<lambda>kv. fst kv \<noteq> []) (b_slots b)\<rparr>),
            hat_next := Suc (hat_next T)\<rparr>)"
  using assms by (rule hattrie_split_pure_eq)

theorem hattrie_split_pure_bucket_witness:
  "hattrie_split pure_example 2 4 =
     Inr (pure_example\<lparr>hat_mem := (hat_mem pure_example)
              (5 \<mapsto> TrieNode \<lparr>t_flag = NODE_TYPE_TRIE OR NODE_HAS_VAL, t_val = 4, t_xs = (\<lambda>i. 4)\<rparr>,
               2 \<mapsto> TrieNode (pure_parent\<lparr>t_xs := (t_xs pure_parent)(98 := 5)\<rparr>),
               4 \<mapsto> BucketNode
                 \<lparr>b_flag = NODE_TYPE_HYBRID_BUCKET, b_c0 = 0, b_c1 = TRIE_MAXCHAR,
                  b_slots = [([1], 2)]\<rparr>),
            hat_next := 6\<rparr>)"
  using hattrie_split_pure_bucket [of pure_example 2 pure_parent 4 pure_bucket]
  by (simp add: pure_example_def pure_parent_def pure_bucket_def NODE_TYPE_TRIE_def
      NODE_TYPE_PURE_BUCKET_def)

section \<open>The value pointer of the iterator\<close>

text \<open>C10. When \<^verbatim>\<open>has_nil_key\<close> is set, \<^verbatim>\<open>hattrie_iter_val\<close> returns the address of the
  iterator's field \<^verbatim>\<open>nil_val\<close>, and an assignment through that pointer leaves the
  container's store as it is: only the iterator's copy changes.\<close>

theorem hattrie_iter_val_nil_key:
  assumes "it_has_nil_key i"
  shows "hattrie_iter_val i = Inr (Some NilVal)
     \<and> iter_store (hat_mem T) i NilVal v = (hat_mem T, i\<lparr>it_nil_val := v\<rparr>)"
  using assms by (simp add: hattrie_iter_val_def iter_store_def)

theorem hattrie_iter_val_nil_key_witness:
  "it_has_nil_key nil_key_iter
   \<and> hattrie_iter_val nil_key_iter = Inr (Some NilVal)
   \<and> iter_store (hat_mem pure_example) nil_key_iter NilVal 7 =
       (hat_mem pure_example, nil_key_iter\<lparr>it_nil_val := 7\<rparr>)"
  using hattrie_iter_val_nil_key [of nil_key_iter pure_example 7]
  by (simp add: nil_key_iter_def)

section \<open>Keys that end on a trie node\<close>

declare get_loop.simps [code]

text \<open>C1. Insert-then-lookup should return the stored value for every key. In the
  container \<open>burst_example\<close> the keys are \<open>[97, 98, 1]\<close>, \<open>[97, 98, 2]\<close>, \<open>[97, 98, 3]\<close>.
  The call \<^verbatim>\<open>hattrie_get(T, "ab", 1)\<close>, the one-byte key \<open>[97]\<close> at the head of the buffer
  \<open>[97, 98]\<close>, returns a slot, 7 is stored through it, and \<^verbatim>\<open>hattrie_tryget(T, "ab", 1)\<close>
  returns the null pointer.\<close>

theorem get_store_tryget_burst_example:
  "Option.bind burst_example (\<lambda>T. get_store_tryget 2 T [97, 98] 1 7) = Some (Inr None)"
  by code_simp

text \<open>C5. \<^verbatim>\<open>hattrie_consume\<close> should examine only the first \<open>len\<close> bytes of the key. In
  \<open>burst_example\<close>, with \<open>brk = 0\<close> and the one-byte key \<open>[97]\<close>, it reads the byte behind
  the key: a buffer that ends with the key is read out of bounds, and the buffers
  \<open>[97, 98]\<close> and \<open>[97, 0]\<close>, which hold the same key, give different nodes.\<close>

theorem hattrie_consume_reads_past_key:
  "Option.bind burst_example (\<lambda>T. Some
      (hattrie_consume (hat_mem T) [97] (hat_root T, 0, 1) 0,
       hattrie_consume (hat_mem T) [97, 98] (hat_root T, 0, 1) 0,
       hattrie_consume (hat_mem T) [97, 0] (hat_root T, 0, 1) 0))
   = Some (Inl OutOfBounds, Inr (5, 1, 0, 8), Inr (5, 1, 0, 6))"
  by code_simp

section \<open>Zero-length records\<close>

text \<open>The claim C6 as stated, no bucket ever holds a zero-length record, fails: after
  \<open>pure_ops\<close> the pure bucket at address 4 holds one, for the key \<open>[98]\<close>.\<close>

theorem pure_bucket_holds_empty_key:
  "map_option empty_key_buckets (run_ops 2 hattrie_create pure_ops) = Some [4]"
  by code_simp

section \<open>Freeing a buffer of a slab\<close>

lemma chain_frame: "p \<notin> set xs \<Longrightarrow> chain (w(p := v)) q xs = chain w q xs"
  by (induction xs arbitrary: q) auto

lemma slab_list_frame:
  "(\<And>a. a \<in> set xs \<Longrightarrow> S' a = S a) \<Longrightarrow> slab_list S' pv p xs = slab_list S pv p xs"
  by (induction xs arbitrary: pv p) (auto split: option.splits)

lemma slab_list_fields:
  "(\<And>a. a \<in> set xs \<Longrightarrow>
       map_option (\<lambda>x. (s_prev x, s_next x)) (S' a) = map_option (\<lambda>x. (s_prev x, s_next x)) (S a))
   \<Longrightarrow> slab_list S' pv p xs = slab_list S pv p xs"
proof (induction xs arbitrary: pv p)
  case Nil
  then show ?case by simp
next
  case (Cons x xs)
  have "map_option (\<lambda>x. (s_prev x, s_next x)) (S' x) = map_option (\<lambda>x. (s_prev x, s_next x)) (S x)"
    using Cons.prems by simp
  moreover have "\<And>pv p. slab_list S' pv p xs = slab_list S pv p xs"
    using Cons.IH Cons.prems by simp
  ultimately show ?case
    by (cases "S x"; cases "S' x") auto
qed

lemma slab_list_nonzero: "slab_list S pv p xs \<Longrightarrow> 0 \<notin> set xs"
  by (induction xs arbitrary: pv p) (auto split: option.splits)

lemma slab_list_valid: "slab_list S pv p xs \<Longrightarrow> a \<in> set xs \<Longrightarrow> \<exists>sl. S a = Some sl"
  by (induction xs arbitrary: pv p) (auto split: option.splits)

lemma slab_list_next:
  "slab_list S pv p xs \<Longrightarrow> a \<in> set xs \<Longrightarrow> S a = Some sl \<Longrightarrow> s_next sl = 0 \<or> s_next sl \<in> set xs"
proof (induction xs arbitrary: pv p)
  case Nil
  then show ?case by simp
next
  case (Cons x xs)
  then show ?case
    by (cases xs) (auto split: option.splits)
qed

lemma slab_list_prev:
  "slab_list S pv p xs \<Longrightarrow> a \<in> set xs \<Longrightarrow> S a = Some sl \<Longrightarrow> s_prev sl = pv \<or> s_prev sl \<in> set xs"
proof (induction xs arbitrary: pv p)
  case Nil
  then show ?case by simp
next
  case (Cons x xs)
  then show ?case
    by (auto split: option.splits)
qed

lemma slab_list_head_prev:
  "slab_list S pv p (s # xs) \<Longrightarrow> S s = Some sl \<Longrightarrow> s_prev sl = pv \<and> p = s"
  by auto

lemma slab_list_not_head_prev:
  "slab_list S pv p xs \<Longrightarrow> distinct xs \<Longrightarrow> a \<in> set xs \<Longrightarrow> a \<noteq> p \<Longrightarrow> S a = Some sl
     \<Longrightarrow> s_prev sl \<in> set xs"
proof (induction xs arbitrary: pv p)
  case Nil
  then show ?case by simp
next
  case (Cons x xs)
  from Cons.prems have px: "p = x" and ax: "a \<in> set xs" by auto
  from Cons.prems obtain sx where sx: "S x = Some sx" "slab_list S x (s_next sx) xs"
    by (auto split: option.splits)
  have "s_prev sl = x \<or> s_prev sl \<in> set xs"
    using slab_list_prev [OF sx(2) ax Cons.prems(5)] .
  then show ?case by auto
qed

lemma unlinked_other:
  "a \<noteq> s_prev sl \<Longrightarrow> a \<noteq> s_next sl \<Longrightarrow> unlinked S sl a = S a"
  by (auto simp: unlinked_def Let_def split: option.splits)

lemma unlinked_prev:
  assumes "S (s_prev sl) = Some x" "s_prev sl \<noteq> 0" "s_prev sl \<noteq> s_next sl"
  shows "unlinked S sl (s_prev sl) = Some (x\<lparr>s_next := s_next sl\<rparr>)"
  using assms by (auto simp: unlinked_def Let_def split: option.splits)

lemma unlinked_next:
  assumes "S (s_next sl) = Some x" "s_next sl \<noteq> 0" "s_prev sl \<noteq> s_next sl"
  shows "unlinked S sl (s_next sl) = Some (x\<lparr>s_prev := s_prev sl\<rparr>)"
  using assms by (auto simp: unlinked_def Let_def split: option.splits)

lemma slab_list_unlinked:
  assumes "slab_list S pv p L" "distinct L" "s \<in> set L" "S s = Some sl" "pv \<notin> set L"
  shows "slab_list (unlinked S sl) pv (if p = s then s_next sl else p) (remove1 s L)"
  using assms
proof (induction L arbitrary: pv p)
  case Nil
  then show ?case by simp
next
  case (Cons x xs)
  from Cons.prems have px: "p = x" "x \<noteq> 0" by auto
  from Cons.prems obtain sx where sx: "S x = Some sx" "s_prev sx = pv"
      "slab_list S x (s_next sx) xs"
    by (auto split: option.splits)
  have dx: "distinct xs" "x \<notin> set xs" "pv \<noteq> x" "pv \<notin> set xs"
    using Cons.prems by auto
  show ?case
  proof (cases "x = s")
    case True
    then have slsx: "sl = sx" using sx Cons.prems by simp
    have rest: "slab_list S s (s_next sl) xs" using sx True slsx by simp
    show ?thesis
    proof (cases xs)
      case Nil
      then show ?thesis using rest True px by simp
    next
      case (Cons y ys)
      from rest Cons obtain sy where sy: "s_next sl = y" "y \<noteq> 0" "S y = Some sy"
          "s_prev sy = s" "slab_list S y (s_next sy) ys"
        by (auto split: option.splits)
      have ne: "s_prev sl \<noteq> s_next sl" using sx slsx sy dx Cons by auto
      have uy: "unlinked S sl y = Some (sy\<lparr>s_prev := pv\<rparr>)"
        using unlinked_next [of S sl sy] sy ne sx slsx by simp
      have "slab_list (unlinked S sl) y (s_next sy) ys = slab_list S y (s_next sy) ys"
      proof (rule slab_list_frame)
        fix a assume a: "a \<in> set ys"
        then have "a \<noteq> s_prev sl" "a \<noteq> s_next sl"
          using dx Cons sx slsx sy \<open>distinct (x # xs)\<close> by auto
        then show "unlinked S sl a = S a" by (rule unlinked_other)
      qed
      then show ?thesis
        using True px Cons sy uy by simp
    qed
  next
    case False
    then have sxs: "s \<in> set xs" using Cons.prems by auto
    have IH: "slab_list (unlinked S sl) x (if s_next sx = s then s_next sl else s_next sx)
                (remove1 s xs)"
      using Cons.IH [OF sx(3) dx(1) sxs Cons.prems(4) dx(2)] .
    have nxt: "s_next sl = 0 \<or> s_next sl \<in> set xs"
      using slab_list_next [OF sx(3) sxs Cons.prems(4)] .
    then have xn: "x \<noteq> s_next sl" using px dx by auto
    show ?thesis
    proof (cases "s_next sx = s")
      case True
      then obtain ys where xs: "xs = s # ys"
        using sx(3) sxs by (cases xs) auto
      then have pr: "s_prev sl = x" using sx(3) Cons.prems(4) True by auto
      have "unlinked S sl x = Some (sx\<lparr>s_next := s_next sl\<rparr>)"
        using unlinked_prev [of S sl sx] pr sx px xn by simp
      then show ?thesis using IH True False px sx by simp
    next
      case F2: False
      have "s_prev sl \<in> set xs"
        using slab_list_not_head_prev [OF sx(3) dx(1) sxs _ Cons.prems(4)] F2 by simp
      then have "x \<noteq> s_prev sl" using dx by auto
      then have "unlinked S sl x = S x" using xn by (simp add: unlinked_other)
      then show ?thesis using IH F2 False px sx by simp
    qed
  qed
qed


lemma slab_list_self:
  assumes "slab_list S pv p L" "distinct L" "a \<in> set L" "S a = Some sl" "pv \<notin> set L"
  shows "s_next sl \<noteq> a \<and> s_prev sl \<noteq> a"
  using assms
proof (induction L arbitrary: pv p)
  case Nil
  then show ?case by simp
next
  case (Cons x xs)
  from Cons.prems obtain sx where sx: "S x = Some sx" "s_prev sx = pv"
      "slab_list S x (s_next sx) xs" "p = x"
    by (auto split: option.splits)
  show ?case
  proof (cases "a = x")
    case True
    have "s_next sx = 0 \<or> s_next sx \<in> set xs"
      using sx(3) by (cases xs) auto
    moreover have "x \<noteq> 0" using Cons.prems by auto
    ultimately show ?thesis using True sx Cons.prems by auto
  next
    case False
    then show ?thesis
      using Cons.IH [OF sx(3), of ] Cons.prems by auto
  qed
qed

lemma slab_list_remove_unlinked:
  assumes "m_slab M s = Some sl"
    and "s_prev sl = 0 \<or> m_slab M (s_prev sl) \<noteq> None"
    and "s_next sl = 0 \<or> m_slab M (s_next sl) \<noteq> None"
    and "m_cache M (s_cache sl) = Some ca"
  shows "slab_list_remove M s =
     Inr (M\<lparr>m_slab := unlinked (m_slab M) sl,
            m_cache := (m_cache M)(s_cache sl \<mapsto>
               (if c_slabs_free ca = s then ca\<lparr>c_slabs_free := s_next sl\<rparr>
                else if c_slabs_full ca = s then ca\<lparr>c_slabs_full := s_next sl\<rparr>
                else ca))\<rparr>)"
  using assms
  by (auto simp: slab_list_remove_def upd_slab_def unlinked_def write_head_def Let_def
      map_upd_triv split: option.splits)

lemma slab_list_push:
  assumes "slab_list S 0 h L" "s \<notin> set L" "s \<noteq> 0" "S s = Some x" "distinct L"
  shows "slab_list
           (let S1 = S(s \<mapsto> x\<lparr>s_prev := 0, s_next := h\<rparr>)
            in if h \<noteq> 0 then (case S1 h of Some y \<Rightarrow> S1(h \<mapsto> y\<lparr>s_prev := s\<rparr>) | None \<Rightarrow> S1)
               else S1)
           0 s (s # L)"
proof (cases L)
  case Nil
  then show ?thesis using assms by simp
next
  case (Cons y ys)
  from assms(1) Cons obtain sy where sy: "h = y" "y \<noteq> 0" "S y = Some sy"
      "slab_list S y (s_next sy) ys"
    by (auto split: option.splits)
  have ys: "y \<noteq> s" using assms(2) Cons by auto
  let ?S2 = "(S(s \<mapsto> x\<lparr>s_prev := 0, s_next := y\<rparr>))(y \<mapsto> sy\<lparr>s_prev := s\<rparr>)"
  have "slab_list ?S2 y (s_next sy) ys = slab_list S y (s_next sy) ys"
  proof (rule slab_list_frame)
    fix a assume "a \<in> set ys"
    then have "a \<noteq> s" "a \<noteq> y" using assms(2,5) Cons by auto
    then show "?S2 a = S a" by simp
  qed
  then show ?thesis
    using sy ys assms Cons by (simp add: Let_def)
qed

lemma slab_list_insert_push:
  assumes "read_head M l = Inr h" "m_slab M s = Some x"
    and "h = 0 \<or> m_slab M h \<noteq> None"
    and "\<exists>ca. m_cache M (case l of SlabsFree c \<Rightarrow> c | SlabsFull c \<Rightarrow> c) = Some ca"
  shows "\<exists>M'. slab_list_insert M l s = Inr M' \<and> write_head
           (M\<lparr>m_slab := (let S1 = (m_slab M)(s \<mapsto> x\<lparr>s_prev := 0, s_next := h\<rparr>)
            in if h \<noteq> 0 then (case S1 h of Some y \<Rightarrow> S1(h \<mapsto> y\<lparr>s_prev := s\<rparr>) | None \<Rightarrow> S1)
               else S1)\<rparr>) l s = Inr M'"
  using assms
  by (cases l) (auto simp: slab_list_insert_def upd_slab_def Let_def write_head_def read_head_def
      split: option.splits)


lemma slab_list_head: "slab_list S pv p L \<Longrightarrow> p = 0 \<or> p \<in> set L"
  by (cases L) auto

lemma slab_list_move_to_free:
  assumes c: "m_cache M cache = Some ca"
    and s: "m_slab M s = Some sl" "s_cache sl = cache" "s \<noteq> 0"
    and fl: "slab_list (m_slab M) 0 (c_slabs_free ca) fl"
    and ful: "slab_list (m_slab M) 0 (c_slabs_full ca) ful"
    and d: "distinct (fl @ ful)" and mem: "s \<in> set ful"
  shows "\<exists>M' ca' sl'. slab_list_move M (SlabsFree cache) s = Inr M'
     \<and> m_word M' = m_word M \<and> m_cache M' cache = Some ca' \<and> m_slab M' s = Some sl'
     \<and> s_head sl' = s_head sl \<and> s_bufs_free sl' = s_bufs_free sl
     \<and> slab_list (m_slab M') 0 (c_slabs_free ca') (s # fl)
     \<and> slab_list (m_slab M') 0 (c_slabs_full ca') (remove1 s ful)"
proof -
  let ?S = "m_slab M"
  let ?h = "c_slabs_free ca"
  have nz: "0 \<notin> set fl" "0 \<notin> set ful"
    using fl ful by (auto dest: slab_list_nonzero)
  have dl: "distinct fl" "distinct ful" "set fl \<inter> set ful = {}"
    using d by auto
  have sfl: "s \<notin> set fl" using dl mem by auto
  have pr: "s_prev sl = 0 \<or> s_prev sl \<in> set ful"
    using slab_list_prev [OF ful mem s(1)] .
  have nx: "s_next sl = 0 \<or> s_next sl \<in> set ful"
    using slab_list_next [OF ful mem s(1)] .
  have self: "s_next sl \<noteq> s \<and> s_prev sl \<noteq> s"
    using slab_list_self [OF ful dl(2) mem s(1)] nz by simp
  have vp: "s_prev sl = 0 \<or> ?S (s_prev sl) \<noteq> None"
    using pr slab_list_valid [OF ful] by auto
  have vn: "s_next sl = 0 \<or> ?S (s_next sl) \<noteq> None"
    using nx slab_list_valid [OF ful] by auto
  have hfl: "?h = 0 \<or> ?h \<in> set fl" using slab_list_head [OF fl] .
  then have hs: "?h \<noteq> s" using sfl s(3) by auto
  define ca1 where "ca1 = (if c_slabs_full ca = s then ca\<lparr>c_slabs_full := s_next sl\<rparr> else ca)"
  define M1 where "M1 = M\<lparr>m_slab := unlinked ?S sl, m_cache := (m_cache M)(cache \<mapsto> ca1)\<rparr>"
  have rm: "slab_list_remove M s = Inr M1"
    using slab_list_remove_unlinked [OF s(1) vp vn] c s(2) hs
    by (simp add: M1_def ca1_def)
  have h1: "c_slabs_free ca1 = ?h" by (simp add: ca1_def)
  have U_s: "unlinked ?S sl s = Some sl"
    using unlinked_other [of s sl ?S] self s(1) by auto
  have ful1: "slab_list (unlinked ?S sl) 0 (c_slabs_full ca1) (remove1 s ful)"
    using slab_list_unlinked [OF ful dl(2) mem s(1)] nz
    by (cases "c_slabs_full ca = s") (simp_all add: ca1_def)
  have fl1: "slab_list (unlinked ?S sl) 0 ?h fl"
  proof -
    have "slab_list (unlinked ?S sl) 0 ?h fl = slab_list ?S 0 ?h fl"
    proof (rule slab_list_frame)
      fix a assume a: "a \<in> set fl"
      then have "a \<noteq> s_prev sl" "a \<noteq> s_next sl" using pr nx nz dl by auto
      then show "unlinked ?S sl a = ?S a" by (rule unlinked_other)
    qed
    then show ?thesis using fl by simp
  qed
  define S2 where "S2 =
    (let S1 = (unlinked ?S sl)(s \<mapsto> sl\<lparr>s_prev := 0, s_next := ?h\<rparr>)
     in if ?h \<noteq> 0 then (case S1 ?h of Some y \<Rightarrow> S1(?h \<mapsto> y\<lparr>s_prev := s\<rparr>) | None \<Rightarrow> S1)
        else S1)"
  have push: "slab_list S2 0 s (s # fl)"
    unfolding S2_def by (rule slab_list_push [OF fl1 sfl s(3) U_s dl(1)])
  have rh: "read_head M1 (SlabsFree cache) = Inr ?h"
    by (simp add: read_head_def M1_def h1)
  have vh: "?h = 0 \<or> m_slab M1 ?h \<noteq> None"
    using hfl slab_list_valid [OF fl1] by (auto simp: M1_def)
  have "\<exists>M'. slab_list_insert M1 (SlabsFree cache) s = Inr M' \<and>
          write_head (M1\<lparr>m_slab := S2\<rparr>) (SlabsFree cache) s = Inr M'"
    using slab_list_insert_push [OF rh _ vh, of s sl] U_s
    by (simp add: M1_def S2_def)
  then obtain M' where ins: "slab_list_insert M1 (SlabsFree cache) s = Inr M'"
    and wh: "write_head (M1\<lparr>m_slab := S2\<rparr>) (SlabsFree cache) s = Inr M'"
    by blast
  have M': "M' = M1\<lparr>m_slab := S2, m_cache := (m_cache M1)(cache \<mapsto> ca1\<lparr>c_slabs_free := s\<rparr>)\<rparr>"
    using wh by (simp add: write_head_def M1_def)
  have S2_s: "S2 s = Some (sl\<lparr>s_prev := 0, s_next := ?h\<rparr>)"
    using hs by (auto simp: S2_def Let_def split: option.splits)
  have ful2: "slab_list S2 0 (c_slabs_full ca1) (remove1 s ful)"
  proof -
    have "slab_list S2 0 (c_slabs_full ca1) (remove1 s ful) =
          slab_list (unlinked ?S sl) 0 (c_slabs_full ca1) (remove1 s ful)"
    proof (rule slab_list_frame)
      fix a assume a: "a \<in> set (remove1 s ful)"
      then have "a \<noteq> s" "a \<in> set ful" using dl(2) by auto
      moreover then have "a \<noteq> ?h" using hfl nz dl by auto
      ultimately show "S2 a = unlinked ?S sl a"
        by (auto simp: S2_def Let_def split: option.splits)
    qed
    then show ?thesis using ful1 by simp
  qed
  have mv: "slab_list_move M (SlabsFree cache) s = Inr M'"
    by (simp add: slab_list_move_def rm ins)
  show ?thesis
    using mv S2_s push ful2
    by (intro exI [of _ M'] exI [of _ "ca1\<lparr>c_slabs_free := s\<rparr>"]
        exI [of _ "sl\<lparr>s_prev := 0, s_next := ?h\<rparr>"]) (simp add: M' M1_def)
qed

text \<open>C9. For a buffer \<open>p\<close> that is allocated from the cache, \<^verbatim>\<open>slab_free(p)\<close> succeeds on
  the slab \<open>slab_from_ptr p\<close>, which is \<open>p\<close> with the low 16 bits cleared; afterwards \<open>p\<close>
  is the head of that slab's free list, with the old head as its successor, the count
  \<^verbatim>\<open>bufs_free\<close> is one higher, and the slab has moved from the full list to the head of
  the free list if the count was 0; otherwise both lists are as before.\<close>

theorem slab_free_allocated:
  assumes "allocated_in M cache p fl ful bufs"
  shows "case (m_cache M cache, m_slab M (slab_from_ptr p)) of
           (Some ca, Some sl) \<Rightarrow>
             (case slab_free M p of
                Inl e \<Rightarrow> False
              | Inr M' \<Rightarrow>
                  (case (m_cache M' cache, m_slab M' (slab_from_ptr p)) of
                     (Some ca', Some sl') \<Rightarrow>
                       s_head sl' = p \<and> m_word M' p = s_head sl
                       \<and> chain (m_word M') (s_head sl') (p # bufs)
                       \<and> s_bufs_free sl' = s_bufs_free sl + 1
                       \<and> (if s_bufs_free sl = 0
                          then slab_list (m_slab M') 0 (c_slabs_free ca') (slab_from_ptr p # fl)
                             \<and> slab_list (m_slab M') 0 (c_slabs_full ca')
                                  (remove1 (slab_from_ptr p) ful)
                          else slab_list (m_slab M') 0 (c_slabs_free ca') fl
                             \<and> slab_list (m_slab M') 0 (c_slabs_full ca') ful)
                   | _ \<Rightarrow> False))
         | _ \<Rightarrow> False"
proof -
  let ?s = "slab_from_ptr p"
  from assms obtain ca sl where c: "m_cache M cache = Some ca" and sl: "m_slab M ?s = Some sl"
    and p0: "p \<noteq> 0" and s0: "?s \<noteq> 0" and sc: "s_cache sl = cache"
    and fl: "slab_list (m_slab M) 0 (c_slabs_free ca) fl"
    and ful: "slab_list (m_slab M) 0 (c_slabs_full ca) ful"
    and d: "distinct (fl @ ful)"
    and mem: "if s_bufs_free sl = 0 then ?s \<in> set ful else ?s \<in> set fl"
    and ch: "chain (m_word M) (s_head sl) bufs" and pn: "p \<notin> set bufs"
    by (auto simp: allocated_in_def split: option.splits)
  define sl1 where "sl1 = sl\<lparr>s_head := p, s_bufs_free := s_bufs_free sl + 1\<rparr>"
  define M1 where "M1 = M\<lparr>m_word := (m_word M)(p := s_head sl), m_slab := (m_slab M)(?s \<mapsto> sl1)\<rparr>"
  have one: "(s_bufs_free sl + 1 = 1) = (s_bufs_free sl = 0)" by simp
  have ch1: "chain (m_word M1) p (p # bufs)"
    using ch pn p0 by (simp add: M1_def chain_frame)
  have lists: "slab_list (m_slab M1) pv q xs = slab_list (m_slab M) pv q xs" for pv q xs
    by (rule slab_list_fields) (auto simp: M1_def sl1_def sl)
  show ?thesis
  proof (cases "s_bufs_free sl = 0")
    case True
    have fr: "slab_free M p = slab_list_move M1 (SlabsFree cache) ?s"
      using p0 s0 sl True sc by (simp add: slab_free_def Let_def M1_def sl1_def)
    have "\<exists>M' ca' sl'. slab_list_move M1 (SlabsFree cache) ?s = Inr M'
       \<and> m_word M' = m_word M1 \<and> m_cache M' cache = Some ca' \<and> m_slab M' ?s = Some sl'
       \<and> s_head sl' = s_head sl1 \<and> s_bufs_free sl' = s_bufs_free sl1
       \<and> slab_list (m_slab M') 0 (c_slabs_free ca') (?s # fl)
       \<and> slab_list (m_slab M') 0 (c_slabs_full ca') (remove1 ?s ful)"
    proof (rule slab_list_move_to_free)
      show "m_cache M1 cache = Some ca" using c by (simp add: M1_def)
      show "m_slab M1 ?s = Some sl1" by (simp add: M1_def)
      show "s_cache sl1 = cache" using sc by (simp add: sl1_def)
      show "?s \<noteq> 0" by (rule s0)
      show "slab_list (m_slab M1) 0 (c_slabs_free ca) fl" using fl lists by simp
      show "slab_list (m_slab M1) 0 (c_slabs_full ca) ful" using ful lists by simp
      show "distinct (fl @ ful)" by (rule d)
      show "?s \<in> set ful" using mem True by simp
    qed
    then obtain M' ca' sl' where r: "slab_list_move M1 (SlabsFree cache) ?s = Inr M'"
      "m_word M' = m_word M1" "m_cache M' cache = Some ca'" "m_slab M' ?s = Some sl'"
      "s_head sl' = s_head sl1" "s_bufs_free sl' = s_bufs_free sl1"
      "slab_list (m_slab M') 0 (c_slabs_free ca') (?s # fl)"
      "slab_list (m_slab M') 0 (c_slabs_full ca') (remove1 ?s ful)"
      by blast
    have "chain (m_word M') p (p # bufs)" using ch1 r(2) by simp
    moreover have "m_word M' p = s_head sl" using r(2) by (simp add: M1_def)
    ultimately show ?thesis
      using c sl fr r True by (simp add: sl1_def del: slab_list.simps chain.simps)
  next
    case False
    have fr: "slab_free M p = Inr M1"
      using p0 s0 sl False by (simp add: slab_free_def Let_def M1_def sl1_def)
    show ?thesis
      using c sl fr False ch1 fl ful lists
      by (simp add: M1_def sl1_def)
  qed
qed

lemma slab_full_example_reached:
  "slab_cache_alloc (snd (slab_cache_init slab_start 4096 40000)) 4096 65536 =
     Inr (65600, slab_full_example)"
  by (simp add: slab_cache_alloc_def slab_cache_init_def slab_start_def slab_create_def
      slab_list_insert_def read_head_def write_head_def upd_slab_def Let_def
      SLAB_SIZE_def SIZEOF_SLAB_T_def SIZEOF_PTR_def SLAB_MIN_BUFLEN_def SLAB_MINCOLOR_def
      thread_bufs_def slab_alloc_def slab_list_move_def slab_list_remove_def
      slab_full_example_def)
    (simp add: fun_eq_iff)

lemma slab_full_example_allocated: "allocated_in slab_full_example 4096 65600 [] [65536] []"
  by (simp add: allocated_in_def slab_full_example_def slab_from_ptr_def SLAB_MASK_def
      SLAB_SIZE_def)

theorem slab_free_allocated_witness:
  "allocated_in slab_full_example 4096 65600 [] [65536] []
   \<and> (case slab_free slab_full_example 65600 of
        Inl e \<Rightarrow> False
      | Inr M' \<Rightarrow>
          (case (m_cache M' 4096, m_slab M' 65536) of
             (Some ca', Some sl') \<Rightarrow>
               s_head sl' = 65600 \<and> m_word M' 65600 = 0
               \<and> chain (m_word M') (s_head sl') [65600]
               \<and> s_bufs_free sl' = 1
               \<and> slab_list (m_slab M') 0 (c_slabs_free ca') [65536]
               \<and> slab_list (m_slab M') 0 (c_slabs_full ca') []
           | _ \<Rightarrow> False))"
proof -
  have s: "slab_from_ptr 65600 = 65536"
    by (simp add: slab_from_ptr_def SLAB_MASK_def SLAB_SIZE_def)
  have c: "m_cache slab_full_example 4096 =
      Some \<lparr>c_bufsize = 40000, c_color = 8, c_empty = 0, c_slabs_free = 0, c_slabs_full = 65536\<rparr>"
    by (simp add: slab_full_example_def)
  have sl: "m_slab slab_full_example 65536 =
      Some \<lparr>s_bufsize = 40000, s_cache = 4096, s_prev = 0, s_next = 0,
            s_bufs_count = 1, s_bufs_free = 0, s_head = 0, s_base = 65600\<rparr>"
    by (simp add: slab_full_example_def)
  show ?thesis
    using slab_free_allocated [OF slab_full_example_allocated] slab_full_example_allocated
    by (auto simp: s c sl simp del: slab_list.simps chain.simps split: sum.splits option.splits)
qed

section \<open>Splitting a hybrid bucket\<close>

lemma update_fresh: "k \<notin> fst ` set al \<Longrightarrow> AList.update k v al = al @ [(k, v)]"
  by (induction al) auto

lemma delete_distinct_mid:
  "distinct (map fst (xs @ (k, v) # ys)) \<Longrightarrow> AList.delete k (xs @ (k, v) # ys) = xs @ ys"
proof -
  assume d: "distinct (map fst (xs @ (k, v) # ys))"
  have "filter (\<lambda>kv. fst kv \<noteq> k) xs = xs" "filter (\<lambda>kv. fst kv \<noteq> k) ys = ys"
    using d by (auto simp: filter_id_conv image_iff)
  then show ?thesis by (simp add: delete_eq_filter)
qed

text \<open>What \<^verbatim>\<open>hattrie_split_fill\<close> leaves in the two destination buckets: the records of
  the source whose first byte is at most \<open>j\<close> on the left, the others on the right, in
  the source's order, each without its first byte in a pure destination. \<open>dl\<close> and \<open>dr\<close>
  are the records of a reused source bucket that the walk has already passed.\<close>

lemma split_fill_loop_result:
  fixes j :: nat
  defines "P \<equiv> (\<lambda>kv. unat (hd (fst kv)) \<le> j)"
  assumes lr: "left \<noteq> right"
    and hl: "h left = Some (BucketNode L)" and hr: "h right = Some (BucketNode R)"
    and ne: "\<forall>kv \<in> set es. fst kv \<noteq> []"
    and srcl: "src = left \<Longrightarrow> b_flag L AND NODE_TYPE_PURE_BUCKET = 0 \<and> b_slots L = dl @ es
                 \<and> distinct (map fst (dl @ es))"
    and srcr: "src = right \<Longrightarrow> b_flag R AND NODE_TYPE_PURE_BUCKET = 0 \<and> b_slots R = dr @ es
                 \<and> distinct (map fst (dr @ es))"
    and newl: "src \<noteq> left \<Longrightarrow> distinct (map fst (b_slots L) @
                 map (\<lambda>kv. if b_flag L AND NODE_TYPE_PURE_BUCKET \<noteq> 0 then tl (fst kv) else fst kv)
                   (filter P es))"
    and newr: "src \<noteq> right \<Longrightarrow> distinct (map fst (b_slots R) @
                 map (\<lambda>kv. if b_flag R AND NODE_TYPE_PURE_BUCKET \<noteq> 0 then tl (fst kv) else fst kv)
                   (filter (\<lambda>kv. \<not> P kv) es))"
  shows "\<exists>h'. split_fill_loop h src left right j es = Inr h'
     \<and> h' left = Some (BucketNode (L\<lparr>b_slots :=
          (if src = left then dl @ filter P es
           else b_slots L @ map (\<lambda>kv. (if b_flag L AND NODE_TYPE_PURE_BUCKET \<noteq> 0
                                         then tl (fst kv) else fst kv, snd kv)) (filter P es))\<rparr>))
     \<and> h' right = Some (BucketNode (R\<lparr>b_slots :=
          (if src = right then dr @ filter (\<lambda>kv. \<not> P kv) es
           else b_slots R @ map (\<lambda>kv. (if b_flag R AND NODE_TYPE_PURE_BUCKET \<noteq> 0
                                         then tl (fst kv) else fst kv, snd kv))
                              (filter (\<lambda>kv. \<not> P kv) es))\<rparr>))
     \<and> (\<forall>a. a \<noteq> left \<and> a \<noteq> right \<longrightarrow> h' a = h a)"
  using lr hl hr ne srcl srcr newl newr
proof (induction es arbitrary: h L R dl dr)
  case Nil
  then show ?case by auto
next
  case (Cons kv es)
  obtain k u where kv: "kv = (k, u)" by (cases kv)
  from Cons.prems(4) kv obtain c k' where k: "k = c # k'" by (cases k) auto
  have ne': "\<forall>kv \<in> set es. fst kv \<noteq> []" using Cons.prems(4) by simp
  let ?sl = "\<lambda>L kv. if b_flag L AND NODE_TYPE_PURE_BUCKET \<noteq> 0 then tl (fst kv) else fst kv"
  show ?case
  proof (cases "P kv")
    case True
    then have cj: "\<not> unat c > j" by (simp add: P_def kv k)
    show ?thesis
    proof (cases "src = left")
      case sl: True
      then have sr: "src \<noteq> right" using Cons.prems(1) by simp
      have L: "b_flag L AND NODE_TYPE_PURE_BUCKET = 0" "b_slots L = (dl @ [kv]) @ es"
        "distinct (map fst ((dl @ [kv]) @ es))"
        using Cons.prems(5) [OF sl] by auto
      have step: "split_fill_loop h src left right j (kv # es) = split_fill_loop h src left right j es"
        using sl cj by (simp add: kv k)
      have "\<exists>h'. split_fill_loop h src left right j es = Inr h'
         \<and> h' left = Some (BucketNode (L\<lparr>b_slots :=
              (if src = left then (dl @ [kv]) @ filter P es
               else b_slots L @ map (\<lambda>kv. (?sl L kv, snd kv)) (filter P es))\<rparr>))
         \<and> h' right = Some (BucketNode (R\<lparr>b_slots :=
              (if src = right then dr @ filter (\<lambda>kv. \<not> P kv) es
               else b_slots R @ map (\<lambda>kv. (?sl R kv, snd kv)) (filter (\<lambda>kv. \<not> P kv) es))\<rparr>))
         \<and> (\<forall>a. a \<noteq> left \<and> a \<noteq> right \<longrightarrow> h' a = h a)"
      proof (rule Cons.IH [OF Cons.prems(1) Cons.prems(2) Cons.prems(3) ne'])
        show "b_flag L AND NODE_TYPE_PURE_BUCKET = 0 \<and> b_slots L = (dl @ [kv]) @ es
                 \<and> distinct (map fst ((dl @ [kv]) @ es))" using L by simp
        show "src = right \<Longrightarrow> b_flag R AND NODE_TYPE_PURE_BUCKET = 0 \<and> b_slots R = dr @ es
                 \<and> distinct (map fst (dr @ es))" using sr by simp
        show "src \<noteq> left \<Longrightarrow> distinct (map fst (b_slots L) @ map (?sl L) (filter P es))"
          using sl by simp
        show "src \<noteq> right \<Longrightarrow> distinct (map fst (b_slots R) @ map (?sl R) (filter (\<lambda>kv. \<not> P kv) es))"
          using Cons.prems(8) True by simp
      qed
      then show ?thesis using step True sl sr by simp
    next
      case nl: False
      have dL: "distinct (map fst (b_slots L) @ ?sl L kv # map (?sl L) (filter P es))"
        using Cons.prems(7) [OF nl] True by simp
      then have fresh: "?sl L kv \<notin> fst ` set (b_slots L)" by auto
      define L1 where "L1 = L\<lparr>b_slots := b_slots L @ [(?sl L kv, u)]\<rparr>"
      define h1 where "h1 = h(left \<mapsto> BucketNode L1)"
      have ins: "split_fill_insert h left k u = Inr h1"
        using Cons.prems(2) fresh
        by (auto simp: split_fill_insert_def upd_bucket_def ahtable_insert_def update_fresh
            h1_def L1_def kv k)
      show ?thesis
      proof (cases "src = right")
        case sr: True
        have R: "b_flag R AND NODE_TYPE_PURE_BUCKET = 0" "b_slots R = dr @ kv # es"
          "distinct (map fst (dr @ kv # es))"
          using Cons.prems(6) [OF sr] by auto
        define R1 where "R1 = R\<lparr>b_slots := dr @ es\<rparr>"
        define h2 where "h2 = h1(right \<mapsto> BucketNode R1)"
        have del: "upd_bucket h1 src (\<lambda>b. snd (ahtable_del b k)) = Inr h2"
          using Cons.prems(1,3) sr R delete_distinct_mid [of dr k u es]
          by (simp add: upd_bucket_def h1_def h2_def R1_def snd_ahtable_del kv)
        have step: "split_fill_loop h src left right j (kv # es) =
                    split_fill_loop h2 src left right j es"
          using cj nl sr ins del by (simp add: kv k)
        have "\<exists>h'. split_fill_loop h2 src left right j es = Inr h'
           \<and> h' left = Some (BucketNode (L1\<lparr>b_slots :=
                (if src = left then dl @ filter P es
                 else b_slots L1 @ map (\<lambda>kv. (?sl L1 kv, snd kv)) (filter P es))\<rparr>))
           \<and> h' right = Some (BucketNode (R1\<lparr>b_slots :=
                (if src = right then dr @ filter (\<lambda>kv. \<not> P kv) es
                 else b_slots R1 @ map (\<lambda>kv. (?sl R1 kv, snd kv)) (filter (\<lambda>kv. \<not> P kv) es))\<rparr>))
           \<and> (\<forall>a. a \<noteq> left \<and> a \<noteq> right \<longrightarrow> h' a = h2 a)"
        proof (rule Cons.IH [OF Cons.prems(1) _ _ ne'])
          show "h2 left = Some (BucketNode L1)" using Cons.prems(1) by (simp add: h2_def h1_def)
          show "h2 right = Some (BucketNode R1)" by (simp add: h2_def)
          show "src = left \<Longrightarrow> b_flag L1 AND NODE_TYPE_PURE_BUCKET = 0 \<and> b_slots L1 = dl @ es
                 \<and> distinct (map fst (dl @ es))" using nl by simp
          show "b_flag R1 AND NODE_TYPE_PURE_BUCKET = 0 \<and> b_slots R1 = dr @ es
                 \<and> distinct (map fst (dr @ es))" using R by (simp add: R1_def)
          show "distinct (map fst (b_slots L1) @ map (?sl L1) (filter P es))"
            using dL by (simp add: L1_def)
          show "src \<noteq> right \<Longrightarrow> distinct (map fst (b_slots R1) @ map (?sl R1) (filter (\<lambda>kv. \<not> P kv) es))"
            using sr by simp
        qed
        then show ?thesis
          using step True nl sr by (auto simp: L1_def R1_def h2_def h1_def kv)
      next
        case nr: False
        have step: "split_fill_loop h src left right j (kv # es) =
                    split_fill_loop h1 src left right j es"
          using cj nl nr ins by (simp add: kv k)
        have "\<exists>h'. split_fill_loop h1 src left right j es = Inr h'
           \<and> h' left = Some (BucketNode (L1\<lparr>b_slots :=
                (if src = left then dl @ filter P es
                 else b_slots L1 @ map (\<lambda>kv. (?sl L1 kv, snd kv)) (filter P es))\<rparr>))
           \<and> h' right = Some (BucketNode (R\<lparr>b_slots :=
                (if src = right then dr @ filter (\<lambda>kv. \<not> P kv) es
                 else b_slots R @ map (\<lambda>kv. (?sl R kv, snd kv)) (filter (\<lambda>kv. \<not> P kv) es))\<rparr>))
           \<and> (\<forall>a. a \<noteq> left \<and> a \<noteq> right \<longrightarrow> h' a = h1 a)"
        proof (rule Cons.IH [OF Cons.prems(1) _ _ ne'])
          show "h1 left = Some (BucketNode L1)" by (simp add: h1_def)
          show "h1 right = Some (BucketNode R)" using Cons.prems(1,3) by (simp add: h1_def)
          show "src = left \<Longrightarrow> b_flag L1 AND NODE_TYPE_PURE_BUCKET = 0 \<and> b_slots L1 = dl @ es
                 \<and> distinct (map fst (dl @ es))" using nl by simp
          show "src = right \<Longrightarrow> b_flag R AND NODE_TYPE_PURE_BUCKET = 0 \<and> b_slots R = dr @ es
                 \<and> distinct (map fst (dr @ es))" using nr by simp
          show "distinct (map fst (b_slots L1) @ map (?sl L1) (filter P es))"
            using dL by (simp add: L1_def)
          show "src \<noteq> right \<Longrightarrow> distinct (map fst (b_slots R) @ map (?sl R) (filter (\<lambda>kv. \<not> P kv) es))"
            using Cons.prems(8) True by simp
        qed
        then show ?thesis
          using step True nl nr by (auto simp: L1_def h1_def kv)
      qed
    qed
  next
    case False
    then have cj: "unat c > j" by (simp add: P_def kv k)
    show ?thesis
    proof (cases "src = right")
      case sr: True
      then have sl: "src \<noteq> left" using Cons.prems(1) by simp
      have R: "b_flag R AND NODE_TYPE_PURE_BUCKET = 0" "b_slots R = (dr @ [kv]) @ es"
        "distinct (map fst ((dr @ [kv]) @ es))"
        using Cons.prems(6) [OF sr] by auto
      have step: "split_fill_loop h src left right j (kv # es) = split_fill_loop h src left right j es"
        using sr cj by (simp add: kv k)
      have "\<exists>h'. split_fill_loop h src left right j es = Inr h'
         \<and> h' left = Some (BucketNode (L\<lparr>b_slots :=
              (if src = left then dl @ filter P es
               else b_slots L @ map (\<lambda>kv. (?sl L kv, snd kv)) (filter P es))\<rparr>))
         \<and> h' right = Some (BucketNode (R\<lparr>b_slots :=
              (if src = right then (dr @ [kv]) @ filter (\<lambda>kv. \<not> P kv) es
               else b_slots R @ map (\<lambda>kv. (?sl R kv, snd kv)) (filter (\<lambda>kv. \<not> P kv) es))\<rparr>))
         \<and> (\<forall>a. a \<noteq> left \<and> a \<noteq> right \<longrightarrow> h' a = h a)"
      proof (rule Cons.IH [OF Cons.prems(1) Cons.prems(2) Cons.prems(3) ne'])
        show "src = left \<Longrightarrow> b_flag L AND NODE_TYPE_PURE_BUCKET = 0 \<and> b_slots L = dl @ es
                 \<and> distinct (map fst (dl @ es))" using sl by simp
        show "b_flag R AND NODE_TYPE_PURE_BUCKET = 0 \<and> b_slots R = (dr @ [kv]) @ es
                 \<and> distinct (map fst ((dr @ [kv]) @ es))" using R by simp
        show "src \<noteq> left \<Longrightarrow> distinct (map fst (b_slots L) @ map (?sl L) (filter P es))"
          using Cons.prems(7) False by simp
        show "src \<noteq> right \<Longrightarrow> distinct (map fst (b_slots R) @ map (?sl R) (filter (\<lambda>kv. \<not> P kv) es))"
          using sr by simp
      qed
      then show ?thesis using step False sl sr by simp
    next
      case nr: False
      have dR: "distinct (map fst (b_slots R) @ ?sl R kv # map (?sl R) (filter (\<lambda>kv. \<not> P kv) es))"
        using Cons.prems(8) [OF nr] False by simp
      then have fresh: "?sl R kv \<notin> fst ` set (b_slots R)" by auto
      define R1 where "R1 = R\<lparr>b_slots := b_slots R @ [(?sl R kv, u)]\<rparr>"
      define h1 where "h1 = h(right \<mapsto> BucketNode R1)"
      have ins: "split_fill_insert h right k u = Inr h1"
        using Cons.prems(3) fresh
        by (auto simp: split_fill_insert_def upd_bucket_def ahtable_insert_def update_fresh
            h1_def R1_def kv k)
      show ?thesis
      proof (cases "src = left")
        case sl: True
        have L: "b_flag L AND NODE_TYPE_PURE_BUCKET = 0" "b_slots L = dl @ kv # es"
          "distinct (map fst (dl @ kv # es))"
          using Cons.prems(5) [OF sl] by auto
        define L1 where "L1 = L\<lparr>b_slots := dl @ es\<rparr>"
        define h2 where "h2 = h1(left \<mapsto> BucketNode L1)"
        have del: "upd_bucket h1 src (\<lambda>b. snd (ahtable_del b k)) = Inr h2"
          using Cons.prems(1,2) sl L delete_distinct_mid [of dl k u es]
          by (simp add: upd_bucket_def h1_def h2_def L1_def snd_ahtable_del kv)
        have step: "split_fill_loop h src left right j (kv # es) =
                    split_fill_loop h2 src left right j es"
          using cj nr sl ins del by (simp add: kv k)
        have "\<exists>h'. split_fill_loop h2 src left right j es = Inr h'
           \<and> h' left = Some (BucketNode (L1\<lparr>b_slots :=
                (if src = left then dl @ filter P es
                 else b_slots L1 @ map (\<lambda>kv. (?sl L1 kv, snd kv)) (filter P es))\<rparr>))
           \<and> h' right = Some (BucketNode (R1\<lparr>b_slots :=
                (if src = right then dr @ filter (\<lambda>kv. \<not> P kv) es
                 else b_slots R1 @ map (\<lambda>kv. (?sl R1 kv, snd kv)) (filter (\<lambda>kv. \<not> P kv) es))\<rparr>))
           \<and> (\<forall>a. a \<noteq> left \<and> a \<noteq> right \<longrightarrow> h' a = h2 a)"
        proof (rule Cons.IH [OF Cons.prems(1) _ _ ne'])
          show "h2 left = Some (BucketNode L1)" by (simp add: h2_def)
          show "h2 right = Some (BucketNode R1)" using Cons.prems(1) by (simp add: h2_def h1_def)
          show "b_flag L1 AND NODE_TYPE_PURE_BUCKET = 0 \<and> b_slots L1 = dl @ es
                 \<and> distinct (map fst (dl @ es))" using L by (simp add: L1_def)
          show "src = right \<Longrightarrow> b_flag R1 AND NODE_TYPE_PURE_BUCKET = 0 \<and> b_slots R1 = dr @ es
                 \<and> distinct (map fst (dr @ es))" using nr by simp
          show "src \<noteq> left \<Longrightarrow> distinct (map fst (b_slots L1) @ map (?sl L1) (filter P es))"
            using sl by simp
          show "distinct (map fst (b_slots R1) @ map (?sl R1) (filter (\<lambda>kv. \<not> P kv) es))"
            using dR by (simp add: R1_def)
        qed
        then show ?thesis
          using step False nr sl by (auto simp: L1_def R1_def h2_def h1_def kv)
      next
        case nl: False
        have step: "split_fill_loop h src left right j (kv # es) =
                    split_fill_loop h1 src left right j es"
          using cj nl nr ins by (simp add: kv k)
        have "\<exists>h'. split_fill_loop h1 src left right j es = Inr h'
           \<and> h' left = Some (BucketNode (L\<lparr>b_slots :=
                (if src = left then dl @ filter P es
                 else b_slots L @ map (\<lambda>kv. (?sl L kv, snd kv)) (filter P es))\<rparr>))
           \<and> h' right = Some (BucketNode (R1\<lparr>b_slots :=
                (if src = right then dr @ filter (\<lambda>kv. \<not> P kv) es
                 else b_slots R1 @ map (\<lambda>kv. (?sl R1 kv, snd kv)) (filter (\<lambda>kv. \<not> P kv) es))\<rparr>))
           \<and> (\<forall>a. a \<noteq> left \<and> a \<noteq> right \<longrightarrow> h' a = h1 a)"
        proof (rule Cons.IH [OF Cons.prems(1) _ _ ne'])
          show "h1 left = Some (BucketNode L)" using Cons.prems(1,2) by (simp add: h1_def)
          show "h1 right = Some (BucketNode R1)" by (simp add: h1_def)
          show "src = left \<Longrightarrow> b_flag L AND NODE_TYPE_PURE_BUCKET = 0 \<and> b_slots L = dl @ es
                 \<and> distinct (map fst (dl @ es))" using nl by simp
          show "src = right \<Longrightarrow> b_flag R1 AND NODE_TYPE_PURE_BUCKET = 0 \<and> b_slots R1 = dr @ es
                 \<and> distinct (map fst (dr @ es))" using nr by simp
          show "src \<noteq> left \<Longrightarrow> distinct (map fst (b_slots L) @ map (?sl L) (filter P es))"
            using Cons.prems(7) False by simp
          show "distinct (map fst (b_slots R1) @ map (?sl R1) (filter (\<lambda>kv. \<not> P kv) es))"
            using dR by (simp add: R1_def)
        qed
        then show ?thesis
          using step False nl nr by (auto simp: R1_def h1_def kv)
      qed
    qed
  qed
qed

lemma split_mid_count_ok:
  "\<forall>kv \<in> set es. fst kv \<noteq> [] \<Longrightarrow> \<exists>cs'. split_mid_count es cs = Inr cs'"
proof (induction es arbitrary: cs)
  case Nil
  then show ?case by simp
next
  case (Cons kv es)
  obtain k u where kv: "kv = (k, u)" by (cases kv)
  with Cons.prems obtain c k' where "k = c # k'" by (cases k) auto
  with Cons kv show ?case by simp
qed

lemma split_mid_loop_range:
  "split_mid_loop cs c1 all_m (j, lm, rm) = (j', lm', rm') \<Longrightarrow> j \<le> j' \<and> (j < c1 \<longrightarrow> j' < c1)"
proof (induction cs c1 all_m "(j, lm, rm)" arbitrary: j lm rm rule: split_mid_loop.induct)
  case (1 cs c1 all_m j lm rm)
  show ?case
  proof (cases "j + 1 < c1 \<and> \<bar>sint (lm + cs (j + 1)) - sint (rm - cs (j + 1))\<bar> \<le> \<bar>sint (lm - rm)\<bar>
                  \<and> lm + cs (j + 1) < all_m")
    case True
    then have "split_mid_loop cs c1 all_m (j + 1, lm + cs (j + 1), rm - cs (j + 1)) = (j', lm', rm')"
      using "1.prems" by (subst (asm) split_mid_loop.simps) (simp add: Let_def)
    from "1.hyps" [OF _ refl _ this] True show ?thesis by auto
  next
    case False
    then have "j' = j"
      using "1.prems" by (subst (asm) split_mid_loop.simps) (auto simp: Let_def split: if_splits)
    then show ?thesis by simp
  qed
qed

lemma hattrie_split_mid_range:
  assumes "\<forall>kv \<in> set (b_slots b). fst kv \<noteq> []" "b_c0 b < b_c1 b"
  shows "\<exists>j lm rm. hattrie_split_mid b = Inr (j, lm, rm) \<and> b_c0 b \<le> j \<and> j < b_c1 b"
proof -
  obtain cs where cs: "split_mid_count (b_slots b) (\<lambda>c. 0) = Inr cs"
    using split_mid_count_ok [OF assms(1)] by blast
  obtain j lm rm where r: "split_mid_loop cs (b_c1 b) (of_nat (ahtable_size b))
        (b_c0 b, cs (b_c0 b), of_nat (ahtable_size b) - cs (b_c0 b)) = (j, lm, rm)"
    by (metis prod_cases3)
  have "b_c0 b \<le> j \<and> j < b_c1 b"
    using split_mid_loop_range [OF r] assms(2) by simp
  then show ?thesis
    using cs r by (simp add: hattrie_split_mid_def Let_def)
qed

lemma fold_upd_range:
  "fold (\<lambda>c f. f(c := v)) [a..<b] ch x = (if a \<le> x \<and> x < b then v else ch x)"
  by (induction b) auto

lemma set_children_apply:
  "c0 \<le> j \<Longrightarrow> set_children ch c0 j c1 left right c =
     (if c0 \<le> c \<and> c \<le> j then left else if j < c \<and> c \<le> c1 then right else ch c)"
  by (auto simp: set_children_def fold_upd_range)

lemma distinct_tl_same_hd:
  assumes "distinct (map fst es)" "\<forall>kv \<in> set es. fst kv \<noteq> [] \<and> hd (fst kv) = c"
  shows "distinct (map (\<lambda>kv. tl (fst kv)) es)"
proof -
  have "inj_on (\<lambda>kv. tl (fst kv)) (set es)"
  proof (rule inj_onI)
    fix x y assume xy: "x \<in> set es" "y \<in> set es" "tl (fst x) = tl (fst y)"
    then have "fst x = fst y" using assms(2) by (metis list.collapse)
    then show "x = y" using assms(1) xy by (metis distinct_map inj_onD)
  qed
  moreover have "distinct es" using assms(1) by (simp add: distinct_map)
  ultimately show ?thesis by (simp add: distinct_map)
qed

lemma split_part_False: "split_part False es = es"
  by (simp add: split_part_def)

lemma map_fst_split_part:
  "map fst (split_part pure es) = map (\<lambda>kv. if pure then tl (fst kv) else fst kv) es"
  by (simp add: split_part_def)

lemma hattrie_split_fill_eq:
  fixes j :: nat
  defines "P \<equiv> (\<lambda>kv. unat (hd (fst kv)) \<le> j)"
  assumes lr: "left \<noteq> right"
    and hs: "h src = Some (BucketNode S)"
    and hl: "h left = Some (BucketNode L)" and hr: "h right = Some (BucketNode R)"
    and ne: "\<forall>kv \<in> set (b_slots S). fst kv \<noteq> []"
    and ds: "distinct (map fst (b_slots S))"
    and srcl: "src = left \<Longrightarrow> b_flag L AND NODE_TYPE_PURE_BUCKET = 0"
    and srcr: "src = right \<Longrightarrow> b_flag R AND NODE_TYPE_PURE_BUCKET = 0"
    and newl: "src \<noteq> left \<Longrightarrow> b_slots L = [] \<and>
        (b_flag L AND NODE_TYPE_PURE_BUCKET \<noteq> 0 \<longrightarrow>
           (\<forall>kv \<in> set (b_slots S). P kv \<longrightarrow> hd (fst kv) = cl))"
    and newr: "src \<noteq> right \<Longrightarrow> b_slots R = [] \<and>
        (b_flag R AND NODE_TYPE_PURE_BUCKET \<noteq> 0 \<longrightarrow>
           (\<forall>kv \<in> set (b_slots S). \<not> P kv \<longrightarrow> hd (fst kv) = cr))"
  shows "hattrie_split_fill h src left right j =
     Inr (h(left \<mapsto> BucketNode (L\<lparr>b_slots :=
                split_part (b_flag L AND NODE_TYPE_PURE_BUCKET \<noteq> 0) (filter P (b_slots S))\<rparr>),
            right \<mapsto> BucketNode (R\<lparr>b_slots :=
                split_part (b_flag R AND NODE_TYPE_PURE_BUCKET \<noteq> 0)
                  (filter (\<lambda>kv. \<not> P kv) (b_slots S))\<rparr>)))"
proof -
  let ?E = "b_slots S"
  let ?pl = "b_flag L AND NODE_TYPE_PURE_BUCKET \<noteq> 0"
  let ?pr = "b_flag R AND NODE_TYPE_PURE_BUCKET \<noteq> 0"
  have dL: "distinct (map fst (b_slots L) @ map (\<lambda>kv. if ?pl then tl (fst kv) else fst kv) (filter P ?E))"
    if "src \<noteq> left"
  proof (cases ?pl)
    case True
    have "distinct (map (\<lambda>kv. tl (fst kv)) (filter P ?E))"
      by (rule distinct_tl_same_hd [where c = cl])
        (use ds ne newl [OF that] True in \<open>auto simp: distinct_map_filter\<close>)
    then show ?thesis using newl [OF that] True by simp
  next
    case False
    then show ?thesis using newl [OF that] ds by (simp add: distinct_map_filter)
  qed
  have dR: "distinct (map fst (b_slots R) @ map (\<lambda>kv. if ?pr then tl (fst kv) else fst kv)
              (filter (\<lambda>kv. \<not> P kv) ?E))"
    if "src \<noteq> right"
  proof (cases ?pr)
    case True
    have "distinct (map (\<lambda>kv. tl (fst kv)) (filter (\<lambda>kv. \<not> P kv) ?E))"
      by (rule distinct_tl_same_hd [where c = cr])
        (use ds ne newr [OF that] True in \<open>auto simp: distinct_map_filter\<close>)
    then show ?thesis using newr [OF that] True by simp
  next
    case False
    then show ?thesis using newr [OF that] ds by (simp add: distinct_map_filter)
  qed
  have "\<exists>h'. split_fill_loop h src left right j ?E = Inr h'
     \<and> h' left = Some (BucketNode (L\<lparr>b_slots :=
          (if src = left then [] @ filter (\<lambda>kv. unat (hd (fst kv)) \<le> j) ?E
           else b_slots L @ map (\<lambda>kv. (if ?pl then tl (fst kv) else fst kv, snd kv))
                  (filter (\<lambda>kv. unat (hd (fst kv)) \<le> j) ?E))\<rparr>))
     \<and> h' right = Some (BucketNode (R\<lparr>b_slots :=
          (if src = right then [] @ filter (\<lambda>kv. \<not> unat (hd (fst kv)) \<le> j) ?E
           else b_slots R @ map (\<lambda>kv. (if ?pr then tl (fst kv) else fst kv, snd kv))
                              (filter (\<lambda>kv. \<not> unat (hd (fst kv)) \<le> j) ?E))\<rparr>))
     \<and> (\<forall>a. a \<noteq> left \<and> a \<noteq> right \<longrightarrow> h' a = h a)"
  proof (rule split_fill_loop_result [OF lr hl hr ne])
    show "b_flag L AND NODE_TYPE_PURE_BUCKET = 0 \<and> b_slots L = [] @ ?E \<and> distinct (map fst ([] @ ?E))"
      if "src = left" using that srcl hs hl ds by simp
    show "b_flag R AND NODE_TYPE_PURE_BUCKET = 0 \<and> b_slots R = [] @ ?E \<and> distinct (map fst ([] @ ?E))"
      if "src = right" using that srcr hs hr ds by simp
    show "distinct (map fst (b_slots L) @ map (\<lambda>kv. if ?pl then tl (fst kv) else fst kv)
            (filter (\<lambda>kv. unat (hd (fst kv)) \<le> j) ?E))" if "src \<noteq> left"
      using dL [OF that] by (simp add: P_def)
    show "distinct (map fst (b_slots R) @ map (\<lambda>kv. if ?pr then tl (fst kv) else fst kv)
            (filter (\<lambda>kv. \<not> unat (hd (fst kv)) \<le> j) ?E))" if "src \<noteq> right"
      using dR [OF that] by (simp add: P_def)
  qed
  then obtain h' where h': "split_fill_loop h src left right j ?E = Inr h'"
    and l': "h' left = Some (BucketNode (L\<lparr>b_slots :=
          (if src = left then filter P ?E
           else b_slots L @ split_part ?pl (filter P ?E))\<rparr>))"
    and r': "h' right = Some (BucketNode (R\<lparr>b_slots :=
          (if src = right then filter (\<lambda>kv. \<not> P kv) ?E
           else b_slots R @ split_part ?pr (filter (\<lambda>kv. \<not> P kv) ?E))\<rparr>))"
    and o': "\<forall>a. a \<noteq> left \<and> a \<noteq> right \<longrightarrow> h' a = h a"
    by (auto simp: P_def split_part_def)
  have L': "h' left = Some (BucketNode (L\<lparr>b_slots := split_part ?pl (filter P ?E)\<rparr>))"
    using l' srcl newl by (cases "src = left") (simp_all add: split_part_False)
  have R': "h' right = Some (BucketNode (R\<lparr>b_slots := split_part ?pr (filter (\<lambda>kv. \<not> P kv) ?E)\<rparr>))"
    using r' srcr newr by (cases "src = right") (simp_all add: split_part_False)
  have "h' = h(left \<mapsto> BucketNode (L\<lparr>b_slots := split_part ?pl (filter P ?E)\<rparr>),
               right \<mapsto> BucketNode (R\<lparr>b_slots := split_part ?pr (filter (\<lambda>kv. \<not> P kv) ?E)\<rparr>))"
    using L' R' o' lr by (auto simp: fun_eq_iff)
  then show ?thesis using h' hs by (simp add: hattrie_split_fill_def)
qed

lemma bucket_ok_hybrid:
  assumes "bucket_ok b" "b_flag b = NODE_TYPE_HYBRID_BUCKET"
  shows "b_c0 b < b_c1 b" "b_c1 b \<le> TRIE_MAXCHAR" "distinct (map fst (b_slots b))"
    "\<forall>kv \<in> set (b_slots b). fst kv \<noteq> [] \<and> b_c0 b \<le> unat (hd (fst kv)) \<and> unat (hd (fst kv)) \<le> b_c1 b"
    "b_flag b AND NODE_TYPE_PURE_BUCKET = 0"
  using assms
  by (auto simp: bucket_ok_def NODE_TYPE_HYBRID_BUCKET_def NODE_TYPE_PURE_BUCKET_def)

lemma hattrie_split_h_result:
  assumes par: "hat_mem T parent = Some (TrieNode t)"
    and nd: "hat_mem T nd = Some (BucketNode b)"
    and ok: "bucket_ok b" and hy: "b_flag b = NODE_TYPE_HYBRID_BUCKET"
    and fresh: "\<forall>a \<ge> hat_next T. hat_mem T a = None"
  shows "\<exists>j left right n'.
      hattrie_split_h T parent nd =
        Inr (T\<lparr>hat_mem := split_h_mem (hat_mem T) parent t nd b j left right, hat_next := n'\<rparr>)
      \<and> b_c0 b \<le> j \<and> j < b_c1 b \<and> left \<noteq> right
      \<and> (left = nd \<or> hat_next T \<le> left) \<and> (right = nd \<or> hat_next T \<le> right)
      \<and> (nd = left \<or> nd = right \<or> j = b_c0 b \<and> j + 1 = b_c1 b)
      \<and> left < n' \<and> right < n' \<and> hat_next T < n'"
proof -
  let ?h = "hat_mem T"
  let ?c0 = "b_c0 b" and ?c1 = "b_c1 b" and ?E = "b_slots b"
  let ?a = "hat_next T"
  note hb = bucket_ok_hybrid [OF ok hy]
  have lt: "parent < ?a" "nd < ?a"
    using par nd fresh by (auto simp: not_le [symmetric])
  have pn: "parent \<noteq> nd" using par nd by auto
  obtain j lm rm where mid: "hattrie_split_mid b = Inr (j, lm, rm)" and j: "?c0 \<le> j" "j < ?c1"
    using hattrie_split_mid_range [of b] hb by auto
  obtain left right T1 where nodes: "split_h_nodes T nd ?c0 j ?c1 = (left, right, T1)"
    by (metis prod_cases3)
  define L0 where "L0 = (if left = nd then b else ahtable_create)"
  define R0 where "R0 = (if right = nd then b else ahtable_create)"
  have N: "left \<noteq> right" "left = nd \<or> ?a \<le> left" "right = nd \<or> ?a \<le> right"
    "left = nd \<longrightarrow> j \<noteq> ?c0" "right = nd \<longrightarrow> j + 1 \<noteq> ?c1"
    "nd = left \<or> nd = right \<or> j = ?c0 \<and> j + 1 = ?c1"
    "left < hat_next T1" "right < hat_next T1" "?a < hat_next T1"
    "hat_root T1 = hat_root T" "hat_m T1 = hat_m T"
    "hat_mem T1 left = Some (BucketNode L0)" "hat_mem T1 right = Some (BucketNode R0)"
    "\<forall>x. x \<noteq> left \<and> x \<noteq> right \<longrightarrow> hat_mem T1 x = ?h x"
    "T1 = T\<lparr>hat_mem := hat_mem T1, hat_next := hat_next T1\<rparr>"
    using nodes lt nd
    by (auto simp: split_h_nodes_def alloc_node_def Let_def L0_def R0_def split: if_splits)
  have lp: "left \<noteq> parent" "right \<noteq> parent" using N(2,3) lt pn by auto
  define L where "L = L0\<lparr>b_c0 := ?c0, b_c1 := j,
      b_flag := (if ?c0 = j then NODE_TYPE_PURE_BUCKET else NODE_TYPE_HYBRID_BUCKET)\<rparr>"
  define R where "R = R0\<lparr>b_c0 := j + 1, b_c1 := ?c1,
      b_flag := (if j + 1 = ?c1 then NODE_TYPE_PURE_BUCKET else NODE_TYPE_HYBRID_BUCKET)\<rparr>"
  define h2 where "h2 = (hat_mem T1)(left \<mapsto> BucketNode L, right \<mapsto> BucketNode R)"
  have stp: "split_h_setup (hat_mem T1) left right ?c0 j ?c1 = Inr h2"
    using N(1,12,13) by (simp add: split_h_setup_def upd_bucket_def h2_def L_def R_def)
  define t' where "t' = t\<lparr>t_xs := set_children (t_xs t) ?c0 j ?c1 left right\<rparr>"
  define h3 where "h3 = h2(parent \<mapsto> TrieNode t')"
  have h2p: "h2 parent = Some (TrieNode t)"
    using lp N(14) par by (simp add: h2_def)
  have rep: "split_h_reparent h2 parent ?c0 j ?c1 left right = Inr h3"
    using h2p by (simp add: split_h_reparent_def h3_def t'_def)
  define S where "S = (if nd = left then L else if nd = right then R else b)"
  have h3nd: "h3 nd = Some (BucketNode S)"
    using pn N(1,14) nd by (auto simp: h3_def h2_def S_def)
  have SE: "b_slots S = ?E"
    by (auto simp: S_def L_def R_def L0_def R0_def)
  have h3l: "h3 left = Some (BucketNode L)" and h3r: "h3 right = Some (BucketNode R)"
    using lp N(1) by (auto simp: h3_def h2_def)
  have pl: "(b_flag L AND NODE_TYPE_PURE_BUCKET \<noteq> 0) = (?c0 = j)"
    and pr: "(b_flag R AND NODE_TYPE_PURE_BUCKET \<noteq> 0) = (j + 1 = ?c1)"
    by (auto simp: L_def R_def NODE_TYPE_PURE_BUCKET_def NODE_TYPE_HYBRID_BUCKET_def)
  have fill: "hattrie_split_fill h3 nd left right j =
     Inr (h3(left \<mapsto> BucketNode (L\<lparr>b_slots :=
                split_part (b_flag L AND NODE_TYPE_PURE_BUCKET \<noteq> 0)
                  (filter (\<lambda>kv. unat (hd (fst kv)) \<le> j) (b_slots S))\<rparr>),
            right \<mapsto> BucketNode (R\<lparr>b_slots :=
                split_part (b_flag R AND NODE_TYPE_PURE_BUCKET \<noteq> 0)
                  (filter (\<lambda>kv. \<not> unat (hd (fst kv)) \<le> j) (b_slots S))\<rparr>)))"
  proof (rule hattrie_split_fill_eq [OF N(1) h3nd h3l h3r, where cl = "of_nat ?c0" and cr = "of_nat ?c1"])
    show "\<forall>kv \<in> set (b_slots S). fst kv \<noteq> []" using hb SE by simp
    show "distinct (map fst (b_slots S))" using hb SE by simp
    show "b_flag L AND NODE_TYPE_PURE_BUCKET = 0" if "nd = left"
      using that N(4) pl by auto
    show "b_flag R AND NODE_TYPE_PURE_BUCKET = 0" if "nd = right"
      using that N(5) pr by auto
    show "b_slots L = [] \<and> (b_flag L AND NODE_TYPE_PURE_BUCKET \<noteq> 0 \<longrightarrow>
        (\<forall>kv \<in> set (b_slots S). unat (hd (fst kv)) \<le> j \<longrightarrow> hd (fst kv) = of_nat ?c0))"
      if "nd \<noteq> left"
    proof -
      have "b_slots L = []" using that by (auto simp: L_def L0_def ahtable_create_def)
      moreover have "hd (fst kv) = of_nat ?c0"
        if "?c0 = j" "kv \<in> set ?E" "unat (hd (fst kv)) \<le> j" for kv
      proof -
        have "unat (hd (fst kv)) = ?c0" using that hb(4) by force
        then have "of_nat (unat (hd (fst kv))) = (of_nat (b_c0 b) :: byte)" by simp
        then show ?thesis by simp
      qed
      ultimately show ?thesis using pl SE by auto
    qed
    show "b_slots R = [] \<and> (b_flag R AND NODE_TYPE_PURE_BUCKET \<noteq> 0 \<longrightarrow>
        (\<forall>kv \<in> set (b_slots S). \<not> unat (hd (fst kv)) \<le> j \<longrightarrow> hd (fst kv) = of_nat ?c1))"
      if "nd \<noteq> right"
    proof -
      have "b_slots R = []" using that by (auto simp: R_def R0_def ahtable_create_def)
      moreover have "hd (fst kv) = of_nat ?c1"
        if "j + 1 = ?c1" "kv \<in> set ?E" "\<not> unat (hd (fst kv)) \<le> j" for kv
      proof -
        have "unat (hd (fst kv)) = ?c1" using that hb(4) by force
        then have "of_nat (unat (hd (fst kv))) = (of_nat (b_c1 b) :: byte)" by simp
        then show ?thesis by simp
      qed
      ultimately show ?thesis using pr SE by auto
    qed
  qed
  define h4 where "h4 = h3(left \<mapsto> BucketNode (L\<lparr>b_slots :=
                split_part (?c0 = j) (filter (\<lambda>kv. unat (hd (fst kv)) \<le> j) ?E)\<rparr>),
            right \<mapsto> BucketNode (R\<lparr>b_slots :=
                split_part (j + 1 = ?c1) (filter (\<lambda>kv. \<not> unat (hd (fst kv)) \<le> j) ?E)\<rparr>))"
  have fill': "hattrie_split_fill h3 nd left right j = Inr h4"
    using fill by (simp add: h4_def pl pr SE)
  have res: "hattrie_split_h T parent nd =
      Inr (T1\<lparr>hat_mem := (if nd \<noteq> left \<and> nd \<noteq> right then h4(nd := None) else h4)\<rparr>)"
    using nd mid nodes stp rep fill' by (simp add: hattrie_split_h_def)
  have mem: "(if nd \<noteq> left \<and> nd \<noteq> right then h4(nd := None) else h4) =
      split_h_mem ?h parent t nd b j left right"
  proof (rule ext)
    fix x
    have tx: "t_xs t' = (\<lambda>c. if ?c0 \<le> c \<and> c \<le> j then left
                             else if j < c \<and> c \<le> ?c1 then right else t_xs t c)"
      using j by (auto simp: t'_def set_children_apply fun_eq_iff)
    have LL: "L\<lparr>b_slots := split_part (?c0 = j) (filter (\<lambda>kv. unat (hd (fst kv)) \<le> j) ?E)\<rparr> =
        \<lparr>b_flag = (if ?c0 = j then NODE_TYPE_PURE_BUCKET else NODE_TYPE_HYBRID_BUCKET),
         b_c0 = ?c0, b_c1 = j,
         b_slots = split_part (?c0 = j) (filter (\<lambda>kv. unat (hd (fst kv)) \<le> j) ?E)\<rparr>"
      by (simp add: L_def)
    have RR: "R\<lparr>b_slots := split_part (j + 1 = ?c1) (filter (\<lambda>kv. \<not> unat (hd (fst kv)) \<le> j) ?E)\<rparr> =
        \<lparr>b_flag = (if j + 1 = ?c1 then NODE_TYPE_PURE_BUCKET else NODE_TYPE_HYBRID_BUCKET),
         b_c0 = j + 1, b_c1 = ?c1,
         b_slots = split_part (j + 1 = ?c1) (filter (\<lambda>kv. \<not> unat (hd (fst kv)) \<le> j) ?E)\<rparr>"
      by (simp add: R_def)
    show "(if nd \<noteq> left \<and> nd \<noteq> right then h4(nd := None) else h4) x =
          split_h_mem ?h parent t nd b j left right x"
      using lp N(1,14) pn tx LL RR
      by (auto simp: split_h_mem_def h4_def h3_def h2_def t'_def)
  qed
  have "hattrie_split_h T parent nd =
      Inr (T\<lparr>hat_mem := split_h_mem ?h parent t nd b j left right, hat_next := hat_next T1\<rparr>)"
  proof -
    have "T1\<lparr>hat_mem := X\<rparr> = T\<lparr>hat_mem := X, hat_next := hat_next T1\<rparr>" for X
      by (subst N(15)) simp
    then show ?thesis using res mem by simp
  qed
  then show ?thesis
    using j N by (intro exI [of _ j] exI [of _ left] exI [of _ right] exI [of _ "hat_next T1"]) simp
qed

lemma unat_byte_le: "unat (c :: byte) \<le> TRIE_MAXCHAR"
  using unsigned_less [of c, where ?'a = nat] by (simp add: TRIE_MAXCHAR_def)

lemma unat_byte_eq: "unat (x :: byte) = unat y \<Longrightarrow> x = y"
  by (simp add: word_unat_eq_iff)

lemma map_of_filter_key:
  "map_of (filter (\<lambda>kv. Q (fst kv)) E) k = (if Q k then map_of E k else None)"
  by (induction E) auto

lemma map_of_split_part_pure:
  "\<forall>kv \<in> set F. fst kv \<noteq> [] \<and> hd (fst kv) = c \<Longrightarrow>
     map_of (split_part True F) cs = map_of F (c # cs)"
proof (induction F)
  case Nil
  then show ?case by (simp add: split_part_def)
next
  case (Cons kv F)
  obtain k v where kv: "kv = (k, v)" by (cases kv)
  with Cons.prems obtain k' where k: "k = c # k'" by (cases k) auto
  have "map_of (split_part True F) cs = map_of F (c # cs)" using Cons by simp
  then show ?case by (simp add: split_part_def kv k)
qed

lemma split_h_mem_lookup:
  assumes par: "h parent = Some (TrieNode t)"
    and nd: "h nd = Some (BucketNode b)"
    and ok: "bucket_ok b" and hy: "b_flag b = NODE_TYPE_HYBRID_BUCKET"
    and reach: "\<forall>c \<le> TRIE_MAXCHAR. (t_xs t c = nd) = (b_c0 b \<le> c \<and> c \<le> b_c1 b)"
    and others: "\<forall>p' t' c. h p' = Some (TrieNode t') \<and> p' \<noteq> parent \<and> c \<le> TRIE_MAXCHAR
                   \<longrightarrow> t_xs t' c \<noteq> nd"
    and alloc: "\<forall>p' t' c. h p' = Some (TrieNode t') \<and> c \<le> TRIE_MAXCHAR \<longrightarrow> h (t_xs t' c) \<noteq> None"
    and l: "left = nd \<or> h left = None" and r: "right = nd \<or> h right = None"
    and lr: "left \<noteq> right" and j: "b_c0 b \<le> j" "j < b_c1 b"
    and a: "h a = Some (TrieNode ta)"
  shows "trie_lookup (split_h_mem h parent t nd b j left right) a key = trie_lookup h a key"
  using a
proof (induction key arbitrary: a ta)
  case Nil
  have "a \<noteq> left" "a \<noteq> right" "a \<noteq> nd" using Nil l r nd by auto
  then show ?case using Nil par by (auto simp: split_h_mem_def)
next
  case (Cons c cs)
  let ?h' = "split_h_mem h parent t nd b j left right"
  let ?E = "b_slots b"
  note hb = bucket_ok_hybrid [OF ok hy]
  have uc: "unat c \<le> TRIE_MAXCHAR" by (rule unat_byte_le)
  have lp: "left \<noteq> parent" "right \<noteq> parent" "nd \<noteq> parent" using l r par nd by auto
  have anew: "a \<noteq> left" "a \<noteq> right" "a \<noteq> nd" using Cons.prems l r nd by auto
  have keep: "?h' x = h x" if "x \<noteq> parent" "x \<noteq> nd" "h x \<noteq> None" for x
    using that l r by (auto simp: split_h_mem_def)
  have trie': "\<exists>t'. ?h' x = Some (TrieNode t')" if "h x = Some (TrieNode tx)" for x tx
    using that l r nd by (cases "x = parent") (auto simp: split_h_mem_def)
  have descend: "trie_lookup ?h' a (c # cs) = trie_lookup h a (c # cs)"
    if ha': "?h' a = Some (TrieNode (ta'))" and same: "t_xs ta' (unat c) = t_xs ta (unat c)"
      and nnd: "t_xs ta (unat c) \<noteq> nd" for ta'
  proof -
    let ?ch = "t_xs ta (unat c)"
    have al: "h ?ch \<noteq> None" using alloc Cons.prems uc by blast
    show ?thesis
    proof (cases "h ?ch")
      case None
      then show ?thesis using al by simp
    next
      case (Some n)
      show ?thesis
      proof (cases n)
        case (TrieNode tc)
        obtain tc' where "?h' ?ch = Some (TrieNode tc')" using trie' Some TrieNode by blast
        moreover have "trie_lookup ?h' ?ch cs = trie_lookup h ?ch cs"
          using Cons.IH Some TrieNode by blast
        ultimately show ?thesis using ha' same Some TrieNode Cons.prems by simp
      next
        case (BucketNode bc)
        have "?ch \<noteq> parent" using Some BucketNode par by auto
        then have "?h' ?ch = h ?ch" using keep nnd al by blast
        then show ?thesis using ha' same Some BucketNode Cons.prems by simp
      qed
    qed
  qed
  show ?case
  proof (cases "a = parent")
    case False
    have "?h' a = Some (TrieNode ta)" using keep False anew Cons.prems by simp
    moreover have "t_xs ta (unat c) \<noteq> nd" using others Cons.prems False uc by blast
    ultimately show ?thesis using descend by blast
  next
    case True
    then have tat: "ta = t" using Cons.prems par by simp
    define t' where "t' = t\<lparr>t_xs := (\<lambda>c. if b_c0 b \<le> c \<and> c \<le> j then left
                                              else if j < c \<and> c \<le> b_c1 b then right
                                              else t_xs t c)\<rparr>"
    have hp': "?h' a = Some (TrieNode t')" using True by (simp add: split_h_mem_def t'_def)
    show ?thesis
    proof (cases "b_c0 b \<le> unat c \<and> unat c \<le> b_c1 b")
      case False
      then have "t_xs t' (unat c) = t_xs ta (unat c)" using j by (auto simp: t'_def tat)
      moreover have "t_xs ta (unat c) \<noteq> nd" using reach uc False tat by blast
      ultimately show ?thesis using descend hp' by blast
    next
      case inr: True
      have "t_xs t (unat c) = nd" using reach uc inr by blast
      then have old: "trie_lookup h a (c # cs) = map_of ?E (c # cs)"
        using True par nd hb(5) by simp
      show ?thesis
      proof (cases "unat c \<le> j")
        case le: True
        have ch: "t_xs t' (unat c) = left" using inr le by (simp add: t'_def)
        let ?F = "filter (\<lambda>kv. unat (hd (fst kv)) \<le> j) ?E"
        have hl: "?h' left = Some (BucketNode
               \<lparr>b_flag = (if b_c0 b = j then NODE_TYPE_PURE_BUCKET else NODE_TYPE_HYBRID_BUCKET),
                b_c0 = b_c0 b, b_c1 = j, b_slots = split_part (b_c0 b = j) ?F\<rparr>)"
          using lp by (simp add: split_h_mem_def)
        have F: "map_of ?F (c # cs) = map_of ?E (c # cs)"
          using map_of_filter_key [of "\<lambda>k. unat (hd k) \<le> j" ?E "c # cs"] le by simp
        show ?thesis
        proof (cases "b_c0 b = j")
          case pure: True
          have "\<forall>kv \<in> set ?F. fst kv \<noteq> [] \<and> hd (fst kv) = c"
          proof
            fix kv assume "kv \<in> set ?F"
            then have "fst kv \<noteq> []" "unat (hd (fst kv)) = unat c"
              using hb(4) pure inr le by force+
            then show "fst kv \<noteq> [] \<and> hd (fst kv) = c" by (simp add: unat_byte_eq)
          qed
          then have "map_of (split_part True ?F) cs = map_of ?F (c # cs)"
            by (rule map_of_split_part_pure)
          then show ?thesis
            using hp' ch hl pure old F
            by (simp add: NODE_TYPE_PURE_BUCKET_def)
        next
          case False
          then show ?thesis
            using hp' ch hl old F
            by (simp add: NODE_TYPE_PURE_BUCKET_def NODE_TYPE_HYBRID_BUCKET_def split_part_False)
        qed
      next
        case gt: False
        have ch: "t_xs t' (unat c) = right" using inr gt by (simp add: t'_def)
        let ?F = "filter (\<lambda>kv. \<not> unat (hd (fst kv)) \<le> j) ?E"
        have hr: "?h' right = Some (BucketNode
               \<lparr>b_flag = (if j + 1 = b_c1 b then NODE_TYPE_PURE_BUCKET else NODE_TYPE_HYBRID_BUCKET),
                b_c0 = j + 1, b_c1 = b_c1 b, b_slots = split_part (j + 1 = b_c1 b) ?F\<rparr>)"
          using lp lr by (simp add: split_h_mem_def)
        have F: "map_of ?F (c # cs) = map_of ?E (c # cs)"
          using map_of_filter_key [of "\<lambda>k. \<not> unat (hd k) \<le> j" ?E "c # cs"] gt by simp
        show ?thesis
        proof (cases "j + 1 = b_c1 b")
          case pure: True
          have "\<forall>kv \<in> set ?F. fst kv \<noteq> [] \<and> hd (fst kv) = c"
          proof
            fix kv assume "kv \<in> set ?F"
            then have "fst kv \<noteq> []" "unat (hd (fst kv)) = unat c"
              using hb(4) pure inr gt by force+
            then show "fst kv \<noteq> [] \<and> hd (fst kv) = c" by (simp add: unat_byte_eq)
          qed
          then have "map_of (split_part True ?F) cs = map_of ?F (c # cs)"
            by (rule map_of_split_part_pure)
          then show ?thesis
            using hp' ch hr pure old F
            by (simp add: NODE_TYPE_PURE_BUCKET_def)
        next
          case False
          then show ?thesis
            using hp' ch hr old F
            by (simp add: NODE_TYPE_PURE_BUCKET_def NODE_TYPE_HYBRID_BUCKET_def split_part_False)
        qed
      qed
    qed
  qed
qed

section \<open>Well-formed containers\<close>

lemma hattrie_invD:
  assumes "hattrie_inv T"
  shows "\<exists>r. hat_mem T (hat_root T) = Some (TrieNode r)"
    and "\<And>a. hat_next T \<le> a \<Longrightarrow> hat_mem T a = None"
    and "\<And>p t. hat_mem T p = Some (TrieNode t) \<Longrightarrow> trie_ok (hat_mem T) t"
    and "\<And>x b. hat_mem T x = Some (BucketNode b) \<Longrightarrow> bucket_ok b"
    and "no_share (hat_mem T)"
    and "\<exists>rk. ranked (hat_mem T) rk"
  using assms unfolding hattrie_inv_def by blast+

lemma trie_ok_alloc:
  "trie_ok h t \<Longrightarrow> c \<le> TRIE_MAXCHAR \<Longrightarrow> h (t_xs t c) \<noteq> None"
  by (auto simp: trie_ok_def child_ok_def split: option.splits)

lemma trie_ok_bucket:
  assumes "trie_ok h t" "c \<le> TRIE_MAXCHAR" "h (t_xs t c) = Some (BucketNode b)"
  shows "b_c0 b \<le> c \<and> c \<le> b_c1 b"
    and "\<And>c'. b_c0 b \<le> c' \<Longrightarrow> c' \<le> b_c1 b \<Longrightarrow> t_xs t c' = t_xs t c"
proof -
  have "child_ok h t c" using assms(1,2) unfolding trie_ok_def by blast
  moreover have "child_ok h t c = (b_c0 b \<le> c \<and> c \<le> b_c1 b \<and>
      (\<forall>c'. b_c0 b \<le> c' \<and> c' \<le> b_c1 b \<longrightarrow> t_xs t c' = t_xs t c))"
    using assms(3) by (simp add: child_ok_def)
  ultimately have *: "b_c0 b \<le> c \<and> c \<le> b_c1 b \<and>
      (\<forall>c'. b_c0 b \<le> c' \<and> c' \<le> b_c1 b \<longrightarrow> t_xs t c' = t_xs t c)"
    by blast
  show "b_c0 b \<le> c \<and> c \<le> b_c1 b" using * by blast
  show "\<And>c'. b_c0 b \<le> c' \<Longrightarrow> c' \<le> b_c1 b \<Longrightarrow> t_xs t c' = t_xs t c" using * by blast
qed

lemma trie_ok_flag:
  "trie_ok h t \<Longrightarrow> t_flag t AND NODE_TYPE_TRIE \<noteq> 0"
  by (auto simp: trie_ok_def NODE_TYPE_TRIE_def NODE_HAS_VAL_def)

lemma bucket_ok_flag:
  "bucket_ok b \<Longrightarrow> b_flag b AND NODE_TYPE_TRIE = 0"
  by (auto simp: bucket_ok_def NODE_TYPE_TRIE_def NODE_TYPE_PURE_BUCKET_def NODE_TYPE_HYBRID_BUCKET_def)

lemma no_shareD:
  "no_share h \<Longrightarrow> h p = Some (TrieNode t) \<Longrightarrow> h p' = Some (TrieNode t') \<Longrightarrow>
   c \<le> TRIE_MAXCHAR \<Longrightarrow> c' \<le> TRIE_MAXCHAR \<Longrightarrow> t_xs t c = t_xs t' c' \<Longrightarrow>
   p = p' \<and> (c = c' \<or> (\<exists>b. h (t_xs t c) = Some (BucketNode b)))"
  unfolding no_share_def by blast

text \<open>What the invariants say about a bucket below a trie node: the slots that point
  to it are those of its range in that one trie node.\<close>

lemma inv_bucket_child:
  assumes inv: "hattrie_inv T"
    and par: "hat_mem T parent = Some (TrieNode t)"
    and c: "c \<le> TRIE_MAXCHAR" "t_xs t c = nd"
    and nd: "hat_mem T nd = Some (BucketNode b)"
  shows "\<forall>c' \<le> TRIE_MAXCHAR. (t_xs t c' = nd) = (b_c0 b \<le> c' \<and> c' \<le> b_c1 b)"
    and "\<forall>p' t' c'. hat_mem T p' = Some (TrieNode t') \<and> p' \<noteq> parent \<and> c' \<le> TRIE_MAXCHAR
           \<longrightarrow> t_xs t' c' \<noteq> nd"
    and "\<forall>p' t' c'. hat_mem T p' = Some (TrieNode t') \<and> c' \<le> TRIE_MAXCHAR
           \<longrightarrow> hat_mem T (t_xs t' c') \<noteq> None"
    and "b_c0 b \<le> c \<and> c \<le> b_c1 b"
proof -
  note D = hattrie_invD [OF inv]
  have tok: "trie_ok (hat_mem T) t" using D(3) par by blast
  show "\<forall>c' \<le> TRIE_MAXCHAR. (t_xs t c' = nd) = (b_c0 b \<le> c' \<and> c' \<le> b_c1 b)"
  proof (intro allI impI)
    fix c' assume c': "c' \<le> TRIE_MAXCHAR"
    show "(t_xs t c' = nd) = (b_c0 b \<le> c' \<and> c' \<le> b_c1 b)"
    proof
      assume "t_xs t c' = nd"
      then show "b_c0 b \<le> c' \<and> c' \<le> b_c1 b"
        using trie_ok_bucket(1) [OF tok c'] nd by simp
    next
      assume "b_c0 b \<le> c' \<and> c' \<le> b_c1 b"
      then show "t_xs t c' = nd"
        using trie_ok_bucket(2) [OF tok c(1), of b c'] nd c(2) by simp
    qed
  qed
  show "\<forall>p' t' c'. hat_mem T p' = Some (TrieNode t') \<and> p' \<noteq> parent \<and> c' \<le> TRIE_MAXCHAR
           \<longrightarrow> t_xs t' c' \<noteq> nd"
  proof (intro allI impI notI)
    fix p' t' c'
    assume "hat_mem T p' = Some (TrieNode t') \<and> p' \<noteq> parent \<and> c' \<le> TRIE_MAXCHAR"
      and "t_xs t' c' = nd"
    then show False
      using no_shareD [OF D(5), of p' t' parent t c' c] par c by simp
  qed
  show "\<forall>p' t' c'. hat_mem T p' = Some (TrieNode t') \<and> c' \<le> TRIE_MAXCHAR
           \<longrightarrow> hat_mem T (t_xs t' c') \<noteq> None"
    using D(3) trie_ok_alloc by blast
  show "b_c0 b \<le> c \<and> c \<le> b_c1 b"
    using trie_ok_bucket(1) [OF tok c(1)] nd c(2) by simp
qed

lemma hattrie_split_pure_mem:
  assumes "hat_mem T parent = Some (TrieNode t)" "t_flag t AND NODE_TYPE_TRIE \<noteq> 0"
    "hat_mem T nd = Some (BucketNode b)" "b_flag b AND NODE_TYPE_PURE_BUCKET \<noteq> 0"
    "hat_mem T (hat_next T) = None"
  shows "hattrie_split T parent nd =
     Inr (T\<lparr>hat_mem := split_p_mem (hat_mem T) parent t nd b (hat_next T),
            hat_next := Suc (hat_next T)\<rparr>)"
  unfolding split_p_mem_def by (rule hattrie_split_pure_eq [OF assms])

lemma split_p_mem_lookup:
  assumes par: "h parent = Some (TrieNode t)"
    and nd: "h nd = Some (BucketNode b)"
    and pure: "b_flag b = NODE_TYPE_PURE_BUCKET"
    and c0: "b_c0 b \<le> TRIE_MAXCHAR"
    and reach: "\<forall>c \<le> TRIE_MAXCHAR. (t_xs t c = nd) = (c = b_c0 b)"
    and others: "\<forall>p' t' c. h p' = Some (TrieNode t') \<and> p' \<noteq> parent \<and> c \<le> TRIE_MAXCHAR
                   \<longrightarrow> t_xs t' c \<noteq> nd"
    and alloc: "\<forall>p' t' c. h p' = Some (TrieNode t') \<and> c \<le> TRIE_MAXCHAR \<longrightarrow> h (t_xs t' c) \<noteq> None"
    and a: "h a = None"
    and x: "h x = Some (TrieNode tx)"
  shows "trie_lookup (split_p_mem h parent t nd b a) x key = trie_lookup h x key"
  using x
proof (induction key arbitrary: x tx)
  case Nil
  have "x \<noteq> a" "x \<noteq> nd" using Nil a nd by auto
  then show ?case using Nil par by (auto simp: split_p_mem_def)
next
  case (Cons c cs)
  let ?h' = "split_p_mem h parent t nd b a"
  let ?E = "b_slots b"
  have uc: "unat c \<le> TRIE_MAXCHAR" by (rule unat_byte_le)
  have ne: "parent \<noteq> a" "nd \<noteq> a" "parent \<noteq> nd" "x \<noteq> a" "x \<noteq> nd"
    using par nd a Cons.prems by auto
  have keep: "?h' y = h y" if "y \<noteq> parent" "y \<noteq> nd" "h y \<noteq> None" for y
    using that a by (auto simp: split_p_mem_def)
  have trie': "\<exists>t'. ?h' y = Some (TrieNode t')" if "h y = Some (TrieNode ty)" for y ty
    using that a nd by (cases "y = parent") (auto simp: split_p_mem_def)
  have descend: "trie_lookup ?h' x (c # cs) = trie_lookup h x (c # cs)"
    if hx': "?h' x = Some (TrieNode tx')" and same: "t_xs tx' (unat c) = t_xs tx (unat c)"
      and nnd: "t_xs tx (unat c) \<noteq> nd" for tx'
  proof -
    let ?ch = "t_xs tx (unat c)"
    have al: "h ?ch \<noteq> None" using alloc Cons.prems uc by blast
    then obtain n where n: "h ?ch = Some n" by auto
    show ?thesis
    proof (cases n)
      case (TrieNode tc)
      obtain tc' where "?h' ?ch = Some (TrieNode tc')" using trie' n TrieNode by blast
      moreover have "trie_lookup ?h' ?ch cs = trie_lookup h ?ch cs"
        using Cons.IH n TrieNode by blast
      ultimately show ?thesis using hx' same n TrieNode Cons.prems by simp
    next
      case (BucketNode bc)
      have "?ch \<noteq> parent" using n BucketNode par by auto
      then have "?h' ?ch = h ?ch" using keep nnd al by blast
      then show ?thesis using hx' same n BucketNode Cons.prems by simp
    qed
  qed
  show ?case
  proof (cases "x = parent")
    case False
    have "?h' x = Some (TrieNode tx)" using keep False ne Cons.prems by simp
    moreover have "t_xs tx (unat c) \<noteq> nd" using others Cons.prems False uc by blast
    ultimately show ?thesis using descend by blast
  next
    case True
    then have teq: "tx = t" using Cons.prems par by simp
    have hp': "?h' x = Some (TrieNode (t\<lparr>t_xs := (t_xs t)(b_c0 b := a)\<rparr>))"
      using True ne by (simp add: split_p_mem_def)
    show ?thesis
    proof (cases "unat c = b_c0 b")
      case False
      then have "t_xs (t\<lparr>t_xs := (t_xs t)(b_c0 b := a)\<rparr>) (unat c) = t_xs tx (unat c)"
        by (simp add: teq)
      moreover have "t_xs tx (unat c) \<noteq> nd" using reach uc False teq by blast
      ultimately show ?thesis using descend hp' by blast
    next
      case eq: True
      have "t_xs t (unat c) = nd" using reach uc eq by blast
      then have old: "trie_lookup h x (c # cs) = map_of ?E cs"
        using True par nd pure by (simp add: NODE_TYPE_PURE_BUCKET_def)
      have ha: "?h' a = Some (TrieNode
              \<lparr>t_flag = (if map_of ?E [] = None then NODE_TYPE_TRIE
                         else NODE_TYPE_TRIE OR NODE_HAS_VAL),
               t_val = (case map_of ?E [] of None \<Rightarrow> 0 | Some v \<Rightarrow> v),
               t_xs = (\<lambda>i. nd)\<rparr>)"
        using ne by (simp add: split_p_mem_def)
      have hn: "?h' nd = Some (BucketNode
              \<lparr>b_flag = NODE_TYPE_HYBRID_BUCKET, b_c0 = 0, b_c1 = TRIE_MAXCHAR,
               b_slots = filter (\<lambda>kv. fst kv \<noteq> []) ?E\<rparr>)"
        by (simp add: split_p_mem_def)
      have new: "trie_lookup ?h' x (c # cs) = trie_lookup ?h' a cs"
        using hp' ha eq by simp
      show ?thesis
      proof (cases cs)
        case Nil
        then show ?thesis
          using new old ha
          by (auto simp: NODE_TYPE_TRIE_def NODE_HAS_VAL_def split: option.splits)
      next
        case (Cons c' cs')
        have "map_of (filter (\<lambda>kv. fst kv \<noteq> []) ?E) (c' # cs') = map_of ?E (c' # cs')"
          using map_of_filter_key [of "\<lambda>k. k \<noteq> []" ?E "c' # cs'"] by simp
        then show ?thesis
          using new old ha hn Cons
          by (simp add: NODE_TYPE_PURE_BUCKET_def NODE_TYPE_HYBRID_BUCKET_def)
      qed
    qed
  qed
qed

end
